theory Spec2Isabelle
  imports Main "HOL-Library.Word" "HOL-Library.Signed_Division" "HOL-Library.Multiset"
begin

section \<open>godu: a concurrent disk-usage walker\<close>

text \<open>
  The program (\<^verbatim>\<open>main.go\<close>) walks one or more directory roots. Every directory is read
  by its own goroutine (\<^verbatim>\<open>walkDir\<close>), directory reads are guarded by the semaphore
  \<^verbatim>\<open>sema\<close>, file sizes travel over the buffered channel \<^verbatim>\<open>fileSizes\<close> to the main
  goroutine, and a helper goroutine closes the channel once the WaitGroup \<^verbatim>\<open>n\<close> is
  back at zero.

  The embedding is an interleaving semantics: a record of the shared state together with
  the program counters of all goroutines, and a function \<open>step\<close> that lets one chosen
  goroutine execute its next statement. A schedule is a list of such choices; every
  behaviour of the program is the execution of some schedule.
\<close>

subsection \<open>Data\<close>

type_synonym int64 = "64 word"

text \<open>The part of \<^verbatim>\<open>os.FileInfo\<close> the program looks at.\<close>

record fileinfo =
  Name :: string
  IsDir :: bool
  Size :: int64

text \<open>
  What the program takes from its environment and from Go's library: the result of
  \<^verbatim>\<open>ioutil.ReadDir\<close> on a path (\<open>Inl\<close> the text of the error), \<^verbatim>\<open>filepath.Join\<close>,
  \<^verbatim>\<open>runtime.NumCPU()\<close>, the number of threads the runtime is set to when \<^verbatim>\<open>main\<close> begins,
  and whether the runtime can be set to a given number of threads (\<open>Some\<close> the fatal
  error of the runtime when the memory does not suffice). The filesystem does not change
  during a run. Go's \<^verbatim>\<open>int\<close> has 64 bits.
\<close>

record env =
  ReadDir :: "string \<Rightarrow> string + fileinfo list"
  Join :: "string \<Rightarrow> string \<Rightarrow> string"
  NumCPU :: int64
  Procs :: int64
  Resize :: "int \<Rightarrow> string option"

text \<open>The command line after \<^verbatim>\<open>flag.Parse()\<close>: \<^verbatim>\<open>-v\<close>, \<^verbatim>\<open>-t\<close> if given, and \<^verbatim>\<open>flag.Args()\<close>.\<close>

record cmdline =
  opt_v :: bool
  opt_t :: "int64 option"
  positional :: "string list"

text \<open>Program counters of the main goroutine, of the closing goroutine and of a walker.\<close>

datatype mpc =
    M_roots "string list"
  | M_go string "string list"
  | M_loop
  | M_final
  | M_exit

datatype cpc = C_unborn | C_wait | C_close | C_exit

datatype wpc =
    W_acquire string
  | W_readdir string
  | W_report string string
  | W_release string "fileinfo list"
  | W_range string "fileinfo list"
  | W_go string fileinfo "fileinfo list"
  | W_exit

record state =
  mainpc :: mpc
  closer :: cpc
  pool :: "wpc list"
  wg :: int
  sema :: nat
  fileSizes :: "int64 list"
  closed :: bool
  nfiles :: int64
  nbytes :: int64
  start :: int64
  vFlag :: bool
  tFlag :: int64
  stdout :: "string list"
  stderr :: "string list"

text \<open>What a step does, as seen from outside.\<close>

datatype event =
    EvAdd
  | EvGo string
  | EvGoCloser
  | EvAcquire
  | EvRead string
  | EvStderr string
  | EvRelease
  | EvSend int64
  | EvDone
  | EvRecv int64
  | EvBreak
  | EvTick
  | EvFinal
  | EvWait
  | EvClose

text \<open>
  A scheduler choice: the main goroutine (with the clock reading it would get from
  \<^verbatim>\<open>time.Now().Unix()\<close>), the timer case of the \<^verbatim>\<open>select\<close> (with the clock reading),
  the closing goroutine, or the walker at a position of the pool.
\<close>

datatype action = AMain int64 | ATick int64 | ACloser | AWalker nat

datatype outcome = Blocked | Panic string | Next event state

subsection \<open>Printing\<close>

text \<open>The verb \<^verbatim>\<open>%d\<close>.\<close>

function digits :: "nat \<Rightarrow> string" where
  "digits k = (if k < 10 then [''0123456789'' ! k] else digits (k div 10) @ [''0123456789'' ! (k mod 10)])"
  by pat_completeness auto
termination
  by (relation "measure id") auto

declare digits.simps [simp del]

definition dec :: "int \<Rightarrow> string" where
  "dec i = (if i < 0 then CHR ''-'' # digits (nat (- i)) else digits (nat i))"

text \<open>Go's \<^verbatim>\<open>/\<close> on \<^verbatim>\<open>int64\<close>: it panics on a zero divisor and truncates towards zero.\<close>

definition div64 :: "int64 \<Rightarrow> int64 \<Rightarrow> int64 option" where
  "div64 a b = (if b = 0 then None else Some (word_of_int (sint a sdiv sint b)))"

text \<open>
  Rounding to the nearest integer, ties to the even one, as floating point and \<^verbatim>\<open>%.1f\<close> do:
  the quotient \<open>p / q\<close> for a positive \<open>q\<close>.
\<close>

definition round_even :: "int \<Rightarrow> int \<Rightarrow> int" where
  "round_even p q =
     (if q < 2 * (p mod q) \<or> (2 * (p mod q) = q \<and> odd (p div q)) then p div q + 1 else p div q)"

text \<open>The number of binary digits of a number.\<close>

fun bits :: "nat \<Rightarrow> nat" where
  "bits n = (if n = 0 then 0 else Suc (bits (n div 2)))"

declare bits.simps [simp del]

text \<open>
  The argument \<^verbatim>\<open>float64(nbytes)/1e9\<close> of the verb \<^verbatim>\<open>%.1f\<close>, for the magnitude of \<^verbatim>\<open>nbytes\<close>
  (the sign goes through the conversion, the division and the verb unchanged):
  \<^item> \<open>float64\<close>: the conversion gives the nearest number with 53 significant binary
    digits, again an integer;
  \<^item> \<open>fdiv_1e9\<close>: the quotient by \<open>10^9\<close> is the nearest number with a mantissa of 53 binary
    digits, here the mantissa and the number of binary digits after the point
    (\<open>places\<close>, which puts the mantissa between \<open>2^52\<close> and \<open>2^53\<close>);
  \<^item> \<open>tenths\<close>: \<^verbatim>\<open>%.1f\<close> rounds the exact value of its argument to one decimal digit,
    here the number of tenths.
\<close>

definition float64 :: "int \<Rightarrow> int" where
  "float64 a = round_even a (2 ^ (bits (nat \<bar>a\<bar>) - 53)) * 2 ^ (bits (nat \<bar>a\<bar>) - 53)"

definition places :: "int \<Rightarrow> nat" where
  "places a =
     (if 2 ^ 52 * 10 ^ 9 \<le> a * 2 ^ (82 - bits (nat a)) then 82 - bits (nat a) else 83 - bits (nat a))"

definition fdiv_1e9 :: "int \<Rightarrow> int \<times> nat" where
  "fdiv_1e9 a = (round_even (a * 2 ^ places a) (10 ^ 9), places a)"

definition tenths :: "int \<times> nat \<Rightarrow> int" where
  "tenths v = round_even (10 * fst v) (2 ^ snd v)"

definition gb_tenths :: "int64 \<Rightarrow> int" where
  "gb_tenths n = tenths (fdiv_1e9 (float64 \<bar>sint n\<bar>))"

text \<open>
  The text of \<^verbatim>\<open>float64(nbytes)/1e9\<close> under \<^verbatim>\<open>%.1f\<close>: the sign, the integer part, a point and
  one digit.
\<close>

definition fmtGB :: "int64 \<Rightarrow> string" where
  "fmtGB n =
     (if sint n < 0 then ''-'' else []) @ digits (nat (gb_tenths n div 10)) @ ''.''
       @ digits (nat (gb_tenths n mod 10))"

text \<open>
  \<^verbatim>\<open>printDiskUsage\<close> and \<^verbatim>\<open>printProgress\<close>: the text written to the standard output,
  \<open>None\<close> when the division panics. The clock reading and \<^verbatim>\<open>runtime.NumGoroutine()\<close> are
  arguments.
\<close>

definition printDiskUsage :: "int64 \<Rightarrow> int64 \<Rightarrow> int64 \<Rightarrow> int64 \<Rightarrow> string option" where
  "printDiskUsage nf nb st stop =
     (let elapsed = stop - st;
          elapsed = (if elapsed = 0 then 1 else elapsed)
      in case div64 nf elapsed of
           None \<Rightarrow> None
         | Some fps \<Rightarrow> Some (''\<newline>Done!\<newline>Files: '' @ dec (sint nf) @ '', Size: '' @ fmtGB nb
                        @ ''GB, Avg FPS: '' @ dec (sint fps) @ '', Elapsed: '' @ dec (sint elapsed)
                        @ '' seconds\<newline>''))"

definition printProgress :: "int \<Rightarrow> int64 \<Rightarrow> int64 \<Rightarrow> int64 \<Rightarrow> int64 \<Rightarrow> string option" where
  "printProgress ngo nf nb st now =
     (let elapsed = now - st;
          elapsed = (if elapsed = 0 then 1 else elapsed)
      in case div64 nf elapsed of
           None \<Rightarrow> None
         | Some fps \<Rightarrow> Some (''Files: '' @ dec (sint nf) @ '', Size: '' @ fmtGB nb
                        @ ''GB, Goroutines: '' @ dec ngo @ '', Cur FPS: '' @ dec (sint fps) @ ''\<newline>''))"

text \<open>The number of lines of a text: one for every newline character.\<close>

definition count_lines :: "string \<Rightarrow> nat" where
  "count_lines str = length (filter (\<lambda>c. c = CHR ''\<newline>'') str)"

subsection \<open>The goroutines\<close>

text \<open>
  \<^verbatim>\<open>runtime.GOMAXPROCS(n)\<close>, of Go's runtime, sets the number of threads that run
  goroutines; the result here is the setting it leaves. An \<open>n\<close> below 1 or equal to the
  setting changes nothing. Any other \<open>n\<close> is kept as \<^verbatim>\<open>int32(n)\<close>: zero again changes
  nothing, a negative number ends the program with a fatal error of the runtime, and a
  positive number is the new setting, unless the runtime cannot make that many threads.
\<close>

definition int32 :: "int64 \<Rightarrow> int" where
  "int32 n = sint (word_of_int (sint n) :: 32 word)"

definition GOMAXPROCS :: "env \<Rightarrow> int64 \<Rightarrow> string + int64" where
  "GOMAXPROCS env n =
     (if sint n \<le> 0 \<or> n = Procs env then Inr (Procs env)
      else if int32 n = 0 then Inr (Procs env)
      else if int32 n < 0 then Inl ''fatal error: procresize: invalid arg''
      else case Resize env (int32 n) of
             Some msg \<Rightarrow> Inl msg
           | None \<Rightarrow> Inr (word_of_int (int32 n)))"

text \<open>
  The state when \<^verbatim>\<open>main\<close> reaches its first loop: the flags are parsed (\<^verbatim>\<open>-t\<close> defaults
  to \<^verbatim>\<open>runtime.NumCPU()\<close>), the roots default to the current directory, both channels
  are empty and the WaitGroup is zero. \<open>t0\<close> is the clock reading taken at the start.
\<close>

definition init :: "env \<Rightarrow> cmdline \<Rightarrow> int64 \<Rightarrow> state" where
  "init env cl t0 =
     (let t = (case opt_t cl of None \<Rightarrow> NumCPU env | Some k \<Rightarrow> k);
          roots = positional cl;
          roots = (if length roots = 0 then [''.''] else roots)
      in \<lparr>mainpc = M_roots roots, closer = C_unborn, pool = [], wg = 0, sema = 0,
          fileSizes = [], closed = False, nfiles = 0, nbytes = 0, start = t0,
          vFlag = opt_v cl, tFlag = t,
          stdout = [], stderr = []\<rparr>)"

text \<open>
  The first statements of \<^verbatim>\<open>main\<close>: after \<^verbatim>\<open>flag.Parse()\<close> the call
  \<^verbatim>\<open>runtime.GOMAXPROCS(*tFlag)\<close>, which ends the program (\<open>Inl\<close> the message) or leaves
  a number of threads, and with it the state above.
\<close>

definition startup :: "env \<Rightarrow> cmdline \<Rightarrow> int64 \<Rightarrow> string + (int64 \<times> state)" where
  "startup env cl t0 =
     (case GOMAXPROCS env (case opt_t cl of None \<Rightarrow> NumCPU env | Some k \<Rightarrow> k) of
        Inl msg \<Rightarrow> Inl msg
      | Inr p \<Rightarrow> Inr (p, init env cl t0))"

text \<open>
  \<^verbatim>\<open>runtime.NumGoroutine()\<close>: the main goroutine, the closing goroutine while it lives,
  and the walkers that have not returned.
\<close>

definition NumGoroutine :: "state \<Rightarrow> int" where
  "NumGoroutine s =
     1 + (if closer s = C_wait \<or> closer s = C_close then 1 else 0)
       + int (length (filter (\<lambda>w. w \<noteq> W_exit) (pool s)))"

text \<open>
  The main goroutine. For every root: \<^verbatim>\<open>n.Add(1)\<close>, then \<^verbatim>\<open>go walkDir(root, &n, fileSizes)\<close>.
  After the last root the closing goroutine is started. Then the \<^verbatim>\<open>select\<close> loop: a
  received size is added to the totals; a receive on the closed and drained channel leaves
  the loop; finally \<^verbatim>\<open>printDiskUsage\<close>.
\<close>

definition main_step :: "env \<Rightarrow> state \<Rightarrow> int64 \<Rightarrow> outcome" where
  "main_step env s now =
     (case mainpc s of
        M_roots [] \<Rightarrow> Next EvGoCloser (s\<lparr>mainpc := M_loop, closer := C_wait\<rparr>)
      | M_roots (root # rest) \<Rightarrow> Next EvAdd (s\<lparr>wg := wg s + 1, mainpc := M_go root rest\<rparr>)
      | M_go root rest \<Rightarrow>
          Next (EvGo root) (s\<lparr>mainpc := M_roots rest, pool := pool s @ [W_acquire root]\<rparr>)
      | M_loop \<Rightarrow>
          (case fileSizes s of
             sz # rest \<Rightarrow>
               Next (EvRecv sz)
                 (s\<lparr>fileSizes := rest, nfiles := nfiles s + 1, nbytes := nbytes s + sz\<rparr>)
           | [] \<Rightarrow> if closed s then Next EvBreak (s\<lparr>mainpc := M_final\<rparr>) else Blocked)
      | M_final \<Rightarrow>
          (case printDiskUsage (nfiles s) (nbytes s) (start s) now of
             None \<Rightarrow> Panic ''integer divide by zero''
           | Some out \<Rightarrow> Next EvFinal (s\<lparr>stdout := stdout s @ [out], mainpc := M_exit\<rparr>))
      | M_exit \<Rightarrow> Blocked)"

text \<open>
  The timer case of the \<^verbatim>\<open>select\<close>: \<^verbatim>\<open>tick\<close> is a nil channel unless \<^verbatim>\<open>-v\<close> was given,
  and a nil channel is never ready.
\<close>

definition tick_step :: "env \<Rightarrow> state \<Rightarrow> int64 \<Rightarrow> outcome" where
  "tick_step env s now =
     (if vFlag s \<and> mainpc s = M_loop then
        (case printProgress (NumGoroutine s) (nfiles s) (nbytes s) (start s) now of
           None \<Rightarrow> Panic ''integer divide by zero''
         | Some out \<Rightarrow> Next EvTick (s\<lparr>stdout := stdout s @ [out]\<rparr>))
      else Blocked)"

text \<open>The closing goroutine: \<^verbatim>\<open>n.Wait()\<close>, then \<^verbatim>\<open>close(fileSizes)\<close>.\<close>

definition closer_step :: "state \<Rightarrow> outcome" where
  "closer_step s =
     (case closer s of
        C_wait \<Rightarrow> if wg s = 0 then Next EvWait (s\<lparr>closer := C_close\<rparr>) else Blocked
      | C_close \<Rightarrow>
          if closed s then Panic ''close of closed channel''
          else Next EvClose (s\<lparr>closed := True, closer := C_exit\<rparr>)
      | _ \<Rightarrow> Blocked)"

text \<open>
  A walker, \<^verbatim>\<open>walkDir(dir, n, fileSizes)\<close>, with \<^verbatim>\<open>dirents(dir)\<close> inlined:
  \<^item> \<open>W_acquire\<close>: \<^verbatim>\<open>sema <- struct{}{}\<close>, which waits while the 256 slots are taken;
  \<^item> \<open>W_readdir\<close>: \<^verbatim>\<open>ioutil.ReadDir(dir)\<close>;
  \<^item> \<open>W_report\<close>: the error branch, one line on the standard error, result \<^verbatim>\<open>nil\<close>;
  \<^item> \<open>W_release\<close>: the deferred \<^verbatim>\<open><-sema\<close>;
  \<^item> \<open>W_range\<close>: the loop over the entries: for a directory \<^verbatim>\<open>n.Add(1)\<close> and then
    (\<open>W_go\<close>) \<^verbatim>\<open>go walkDir(filepath.Join(dir, entry.Name()), n, fileSizes)\<close>, for anything
    else the send \<^verbatim>\<open>fileSizes <- entry.Size()\<close>, which waits while the buffer holds 256
    values and panics on a closed channel; after the last entry the deferred
    \<^verbatim>\<open>n.Done()\<close>, which panics when the counter would become negative.
\<close>

definition walker_step :: "env \<Rightarrow> state \<Rightarrow> nat \<Rightarrow> outcome" where
  "walker_step env s i =
     (if length (pool s) \<le> i then Blocked
      else case pool s ! i of
        W_acquire dir \<Rightarrow>
          if sema s < 256
          then Next EvAcquire (s\<lparr>sema := sema s + 1, pool := (pool s)[i := W_readdir dir]\<rparr>)
          else Blocked
      | W_readdir dir \<Rightarrow>
          (case ReadDir env dir of
             Inl err \<Rightarrow> Next (EvRead dir) (s\<lparr>pool := (pool s)[i := W_report dir err]\<rparr>)
           | Inr entries \<Rightarrow> Next (EvRead dir) (s\<lparr>pool := (pool s)[i := W_release dir entries]\<rparr>))
      | W_report dir err \<Rightarrow>
          Next (EvStderr (''du: '' @ err @ ''\<newline>''))
            (s\<lparr>stderr := stderr s @ [''du: '' @ err @ ''\<newline>''],
               pool := (pool s)[i := W_release dir []]\<rparr>)
      | W_release dir entries \<Rightarrow>
          if sema s = 0 then Blocked
          else Next EvRelease (s\<lparr>sema := sema s - 1, pool := (pool s)[i := W_range dir entries]\<rparr>)
      | W_range dir [] \<Rightarrow>
          if wg s - 1 < 0 then Panic ''sync: negative WaitGroup counter''
          else Next EvDone (s\<lparr>wg := wg s - 1, pool := (pool s)[i := W_exit]\<rparr>)
      | W_range dir (entry # rest) \<Rightarrow>
          if IsDir entry
          then Next EvAdd (s\<lparr>wg := wg s + 1, pool := (pool s)[i := W_go dir entry rest]\<rparr>)
          else if closed s then Panic ''send on closed channel''
          else if length (fileSizes s) < 256
          then Next (EvSend (Size entry))
                 (s\<lparr>fileSizes := fileSizes s @ [Size entry], pool := (pool s)[i := W_range dir rest]\<rparr>)
          else Blocked
      | W_go dir entry rest \<Rightarrow>
          Next (EvGo (Join env dir (Name entry)))
            (s\<lparr>pool := (pool s)[i := W_range dir rest] @ [W_acquire (Join env dir (Name entry))]\<rparr>)
      | W_exit \<Rightarrow> Blocked)"

text \<open>One step of the program. When \<^verbatim>\<open>main\<close> has returned the process is gone.\<close>

definition step :: "env \<Rightarrow> state \<Rightarrow> action \<Rightarrow> outcome" where
  "step env s a =
     (if mainpc s = M_exit then Blocked
      else case a of
        AMain now \<Rightarrow> main_step env s now
      | ATick now \<Rightarrow> tick_step env s now
      | ACloser \<Rightarrow> closer_step s
      | AWalker i \<Rightarrow> walker_step env s i)"

text \<open>
  Running a schedule: the events and the state it leads to, \<open>None\<close> when some choice is
  not enabled or the program panics.
\<close>

fun exec :: "env \<Rightarrow> state \<Rightarrow> action list \<Rightarrow> (event list \<times> state) option" where
  "exec env s [] = Some ([], s)"
| "exec env s (a # as) =
     (case step env s a of
        Next ev s' \<Rightarrow> (case exec env s' as of None \<Rightarrow> None | Some (evs, s'') \<Rightarrow> Some (ev # evs, s''))
      | _ \<Rightarrow> None)"

definition is_tick :: "action \<Rightarrow> bool" where
  "is_tick a = (case a of ATick _ \<Rightarrow> True | _ \<Rightarrow> False)"

subsection \<open>Directory trees\<close>

text \<open>
  A finite description of what lies below a path: the read fails with an error, or it
  gives a list of entries, and then there is one description for every entry that is a
  directory, in the order of the listing.
\<close>

datatype dir = Unreadable string | Listing "fileinfo list" "dir list"

text \<open>The filesystem has the shape \<open>t\<close> below \<open>path\<close>.\<close>

fun agrees :: "env \<Rightarrow> string \<Rightarrow> dir \<Rightarrow> bool" where
  "agrees env path (Unreadable err) = (ReadDir env path = Inl err)"
| "agrees env path (Listing entries subs) =
     (ReadDir env path = Inr entries \<and>
      list_all2 (\<lambda>entry sub. agrees env (Join env path (Name entry)) sub) (filter IsDir entries) subs)"

text \<open>The sizes of the entries of a tree that are not directories, and its failed reads.\<close>

fun files :: "dir \<Rightarrow> int64 list" where
  "files (Unreadable err) = []"
| "files (Listing entries subs) =
     map Size (filter (\<lambda>entry. \<not> IsDir entry) entries) @ concat (map files subs)"

fun failures :: "dir \<Rightarrow> string list" where
  "failures (Unreadable err) = [err]"
| "failures (Listing entries subs) = concat (map failures subs)"

text \<open>The line \<^verbatim>\<open>dirents\<close> prints for a failed read: \<^verbatim>\<open>"du: %v\n"\<close>.\<close>

definition errline :: "string \<Rightarrow> string" where
  "errline err = ''du: '' @ err @ ''\<newline>''"

text \<open>
  The number of steps a tree costs: for an unreadable directory the read, the report, the
  release and \<^verbatim>\<open>n.Done()\<close>; for a readable one the read, the release, \<^verbatim>\<open>n.Done()\<close>, two
  steps for every entry (send and receive, or \<^verbatim>\<open>n.Add(1)\<close> and \<^verbatim>\<open>go\<close>), and for every
  subdirectory its acquire and its own cost.
\<close>

fun work :: "dir \<Rightarrow> nat" where
  "work (Unreadable err) = 4"
| "work (Listing entries subs) = 3 + 2 * length entries + sum_list (map (\<lambda>t. Suc (work t)) subs)"

text \<open>A bound on the steps of a whole run over roots with the trees \<open>ts\<close>, timer events apart.\<close>

definition steps_bound :: "dir list \<Rightarrow> nat" where
  "steps_bound ts = 5 + sum_list (map (\<lambda>t. 3 + work t) ts)"

text \<open>The roots the program walks.\<close>

definition roots_of :: "cmdline \<Rightarrow> string list" where
  "roots_of cl = (if length (positional cl) = 0 then [''.''] else positional cl)"

text \<open>The trees of the roots other than \<open>r\<close>.\<close>

definition other_trees :: "string \<Rightarrow> string list \<Rightarrow> dir list \<Rightarrow> dir list" where
  "other_trees r rs ts = map snd (filter (\<lambda>p. fst p \<noteq> r) (zip rs ts))"

subsection \<open>Quantities of the invariants\<close>

text \<open>The tree below a path, where there is one.\<close>

definition known :: "env \<Rightarrow> string \<Rightarrow> bool" where
  "known env path = (\<exists>t. agrees env path t)"

definition tree_at :: "env \<Rightarrow> string \<Rightarrow> dir" where
  "tree_at env path = (THE t. agrees env path t)"

text \<open>What a run emits: sizes on the channel and lines on the standard error.\<close>

datatype item = FileSize int64 | ErrLine string

definition yield :: "dir \<Rightarrow> item multiset" where
  "yield t = image_mset FileSize (mset (files t)) + image_mset ErrLine (mset (map errline (failures t)))"

text \<open>What is still to come from the entries a walker has not yet handled, and from a goroutine.\<close>

definition ent_items :: "env \<Rightarrow> string \<Rightarrow> fileinfo list \<Rightarrow> item multiset" where
  "ent_items env d es =
     sum_list (map (\<lambda>e. if IsDir e then yield (tree_at env (Join env d (Name e)))
                         else {#FileSize (Size e)#}) es)"

fun w_items :: "env \<Rightarrow> wpc \<Rightarrow> item multiset" where
  "w_items env (W_acquire d) = yield (tree_at env d)"
| "w_items env (W_readdir d) = yield (tree_at env d)"
| "w_items env (W_report d err) = {#ErrLine (errline err)#}"
| "w_items env (W_release d es) = ent_items env d es"
| "w_items env (W_range d es) = ent_items env d es"
| "w_items env (W_go d e es) = yield (tree_at env (Join env d (Name e))) + ent_items env d es"
| "w_items env W_exit = {#}"

fun m_items :: "env \<Rightarrow> mpc \<Rightarrow> item multiset" where
  "m_items env (M_roots rs) = sum_list (map (\<lambda>r. yield (tree_at env r)) rs)"
| "m_items env (M_go r rs) = yield (tree_at env r) + sum_list (map (\<lambda>r. yield (tree_at env r)) rs)"
| "m_items env M_loop = {#}"
| "m_items env M_final = {#}"
| "m_items env M_exit = {#}"

text \<open>The steps still to come.\<close>

definition ent_work :: "env \<Rightarrow> string \<Rightarrow> fileinfo list \<Rightarrow> nat" where
  "ent_work env d es =
     sum_list (map (\<lambda>e. if IsDir e then 3 + work (tree_at env (Join env d (Name e))) else 2) es)"

fun w_work :: "env \<Rightarrow> wpc \<Rightarrow> nat" where
  "w_work env (W_acquire d) = Suc (work (tree_at env d))"
| "w_work env (W_readdir d) = work (tree_at env d)"
| "w_work env (W_report d err) = 3"
| "w_work env (W_release d es) = 2 + ent_work env d es"
| "w_work env (W_range d es) = 1 + ent_work env d es"
| "w_work env (W_go d e es) = 3 + work (tree_at env (Join env d (Name e))) + ent_work env d es"
| "w_work env W_exit = 0"

fun m_work :: "env \<Rightarrow> mpc \<Rightarrow> nat" where
  "m_work env (M_roots rs) = 3 + sum_list (map (\<lambda>r. 3 + work (tree_at env r)) rs)"
| "m_work env (M_go r rs) = 5 + work (tree_at env r) + sum_list (map (\<lambda>r. 3 + work (tree_at env r)) rs)"
| "m_work env M_loop = 2"
| "m_work env M_final = 1"
| "m_work env M_exit = 0"

fun c_work :: "cpc \<Rightarrow> nat" where
  "c_work C_unborn = 2"
| "c_work C_wait = 2"
| "c_work C_close = 1"
| "c_work C_exit = 0"

definition meas :: "env \<Rightarrow> state \<Rightarrow> nat" where
  "meas env s =
     m_work env (mainpc s) + c_work (closer s) + sum_list (map (w_work env) (pool s))
       + length (fileSizes s)"

text \<open>The paths a goroutine will still read all have a finite tree below them.\<close>

definition ents_ok :: "env \<Rightarrow> string \<Rightarrow> fileinfo list \<Rightarrow> bool" where
  "ents_ok env d es = (\<forall>e\<in>set es. IsDir e \<longrightarrow> known env (Join env d (Name e)))"

fun w_ok :: "env \<Rightarrow> wpc \<Rightarrow> bool" where
  "w_ok env (W_acquire d) = known env d"
| "w_ok env (W_readdir d) = known env d"
| "w_ok env (W_report d err) = True"
| "w_ok env (W_release d es) = ents_ok env d es"
| "w_ok env (W_range d es) = ents_ok env d es"
| "w_ok env (W_go d e es) = (known env (Join env d (Name e)) \<and> ents_ok env d es)"
| "w_ok env W_exit = True"

fun m_ok :: "env \<Rightarrow> mpc \<Rightarrow> bool" where
  "m_ok env (M_roots rs) = (\<forall>r\<in>set rs. known env r)"
| "m_ok env (M_go r rs) = (known env r \<and> (\<forall>r\<in>set rs. known env r))"
| "m_ok env M_loop = True"
| "m_ok env M_final = True"
| "m_ok env M_exit = True"

text \<open>Walkers that hold a token of the semaphore, and what a walker counts in the WaitGroup.\<close>

fun holds :: "wpc \<Rightarrow> nat" where
  "holds (W_readdir d) = 1"
| "holds (W_report d err) = 1"
| "holds (W_release d es) = 1"
| "holds w = 0"

fun wgc :: "wpc \<Rightarrow> nat" where
  "wgc W_exit = 0"
| "wgc (W_go d e es) = 2"
| "wgc w = 1"

fun m_wgc :: "mpc \<Rightarrow> nat" where
  "m_wgc (M_go r rs) = 1"
| "m_wgc m = 0"

text \<open>Reading a trace.\<close>

definition sends :: "event list \<Rightarrow> int64 list" where
  "sends evs = concat (map (\<lambda>ev. case ev of EvSend v \<Rightarrow> [v] | _ \<Rightarrow> []) evs)"

definition recvs :: "event list \<Rightarrow> int64 list" where
  "recvs evs = concat (map (\<lambda>ev. case ev of EvRecv v \<Rightarrow> [v] | _ \<Rightarrow> []) evs)"

definition is_go :: "event \<Rightarrow> bool" where
  "is_go ev = (case ev of EvGo d \<Rightarrow> True | _ \<Rightarrow> False)"

definition is_read :: "event \<Rightarrow> bool" where
  "is_read ev = (case ev of EvRead d \<Rightarrow> True | _ \<Rightarrow> False)"

definition is_send :: "event \<Rightarrow> bool" where
  "is_send ev = (case ev of EvSend v \<Rightarrow> True | _ \<Rightarrow> False)"

text \<open>Walkers between \<^verbatim>\<open>n.Add(1)\<close> and \<^verbatim>\<open>go\<close>, before their read, and between read and release.\<close>

fun goc :: "wpc \<Rightarrow> nat" where
  "goc (W_go d e es) = 1"
| "goc w = 0"

fun reading :: "wpc \<Rightarrow> nat" where
  "reading (W_readdir d) = 1"
| "reading w = 0"

fun read_done :: "wpc \<Rightarrow> nat" where
  "read_done (W_report d err) = 1"
| "read_done (W_release d es) = 1"
| "read_done w = 0"

text \<open>The two kinds of item, taken apart.\<close>

fun file_of :: "item \<Rightarrow> int64 multiset" where
  "file_of (FileSize v) = {#v#}"
| "file_of (ErrLine l) = {#}"

fun line_of :: "item \<Rightarrow> string multiset" where
  "line_of (FileSize v) = {#}"
| "line_of (ErrLine l) = {#l#}"

text \<open>
  What one walker does at the gate: of the steps the scheduler gave to position \<open>i\<close> of the
  pool, the acquires, the reads and the releases, in their order. A walker is at phase 0
  before its acquire, at phase 1 before its read, at phase 2 before its release and at
  phase 3 after it.
\<close>

datatype gate = Acquire | Read | Release

definition gate_of :: "event \<Rightarrow> gate list" where
  "gate_of ev = (case ev of EvAcquire \<Rightarrow> [Acquire] | EvRead d \<Rightarrow> [Read] | EvRelease \<Rightarrow> [Release] | _ \<Rightarrow> [])"

definition gate_log :: "nat \<Rightarrow> action list \<Rightarrow> event list \<Rightarrow> gate list" where
  "gate_log i acts evs =
     concat (map (\<lambda>p. if fst p = AWalker i then gate_of (snd p) else []) (zip acts evs))"

fun phase :: "wpc \<Rightarrow> nat" where
  "phase (W_acquire d) = 0"
| "phase (W_readdir d) = 1"
| "phase (W_report d err) = 2"
| "phase (W_release d es) = 2"
| "phase w = 3"

definition gate_expect :: "state \<Rightarrow> nat \<Rightarrow> gate list" where
  "gate_expect s i =
     (if i < length (pool s) then take (phase (pool s ! i)) [Acquire, Read, Release] else [])"

subsection \<open>Invariants\<close>

text \<open>
  The semaphore holds one token for every walker between its acquire and its release, and
  never more than its capacity.
\<close>

definition inv_sema :: "state \<Rightarrow> bool" where
  "inv_sema s \<longleftrightarrow> sema s = sum_list (map holds (pool s)) \<and> sema s \<le> 256"

text \<open>
  The WaitGroup counts the walkers that have not returned, the children they have
  registered and not started, and the root \<^verbatim>\<open>main\<close> has registered and not started.
\<close>

definition inv_wg :: "state \<Rightarrow> bool" where
  "inv_wg s \<longleftrightarrow> wg s = int (sum_list (map wgc (pool s))) + int (m_wgc (mainpc s))"

text \<open>
  The closing goroutine exists once \<^verbatim>\<open>main\<close> has started all roots; it is past \<^verbatim>\<open>n.Wait()\<close>
  only with the counter at zero; the channel is closed when it has finished; \<^verbatim>\<open>main\<close>
  leaves its loop only on the closed and drained channel; the buffer holds at most 256
  values.
\<close>

fun spawning :: "mpc \<Rightarrow> bool" where
  "spawning (M_roots rs) = True"
| "spawning (M_go r rs) = True"
| "spawning m = False"

definition inv_ctl :: "state \<Rightarrow> bool" where
  "inv_ctl s \<longleftrightarrow>
     (closer s = C_unborn \<longleftrightarrow> spawning (mainpc s)) \<and>
     (closer s = C_close \<or> closer s = C_exit \<longrightarrow> wg s = 0) \<and>
     (closed s \<longleftrightarrow> closer s = C_exit) \<and>
     (mainpc s = M_final \<or> mainpc s = M_exit \<longrightarrow> closed s \<and> fileSizes s = []) \<and>
     length (fileSizes s) \<le> 256"

text \<open>Every path still to be read has a finite tree below it.\<close>

definition inv_ok :: "env \<Rightarrow> state \<Rightarrow> bool" where
  "inv_ok env s \<longleftrightarrow> (\<forall>w\<in>set (pool s). w_ok env w) \<and> m_ok env (mainpc s)"

text \<open>What has been sent and printed, with what is still to come, is what the roots hold.\<close>

definition inv_items :: "env \<Rightarrow> item multiset \<Rightarrow> event list \<Rightarrow> state \<Rightarrow> bool" where
  "inv_items env tot evs s \<longleftrightarrow>
     image_mset FileSize (mset (sends evs)) + image_mset ErrLine (mset (stderr s))
       + sum_list (map (w_items env) (pool s)) + m_items env (mainpc s) = tot"

text \<open>
  The channel is a queue: what was sent is what was received followed by the buffer; the
  totals of \<^verbatim>\<open>main\<close> are the number and the \<^verbatim>\<open>int64\<close> sum of what was received.
\<close>

definition inv_chan :: "event list \<Rightarrow> state \<Rightarrow> bool" where
  "inv_chan evs s \<longleftrightarrow>
     sends evs = recvs evs @ fileSizes s \<and>
     nfiles s = of_nat (length (recvs evs)) \<and>
     nbytes s = sum_list (recvs evs)"

text \<open>The events so far against the state.\<close>

definition inv_trace :: "event list \<Rightarrow> state \<Rightarrow> bool" where
  "inv_trace evs s \<longleftrightarrow>
     int (count_list evs EvAdd) = int (count_list evs EvDone) + wg s \<and>
     length (filter is_go evs) + sum_list (map goc (pool s)) + m_wgc (mainpc s) = count_list evs EvAdd \<and>
     count_list evs EvWait = (if closer s = C_close \<or> closer s = C_exit then 1 else 0) \<and>
     count_list evs EvClose = (if closer s = C_exit then 1 else 0) \<and>
     count_list evs EvAcquire = count_list evs EvRelease + sema s \<and>
     length (filter is_read evs) + sum_list (map reading (pool s)) = count_list evs EvAcquire \<and>
     count_list evs EvRelease + sum_list (map read_done (pool s)) = length (filter is_read evs) \<and>
     count_list evs EvFinal = (if mainpc s = M_exit then 1 else 0) \<and>
     length (stdout s) = count_list evs EvTick + count_list evs EvFinal \<and>
     (\<not> vFlag s \<longrightarrow> count_list evs EvTick = 0)"

definition inv_basic :: "event list \<Rightarrow> state \<Rightarrow> bool" where
  "inv_basic evs s \<longleftrightarrow> inv_sema s \<and> inv_wg s \<and> inv_ctl s \<and> inv_trace evs s \<and> inv_chan evs s"

subsection \<open>A small filesystem\<close>

text \<open>
  Used to run the program on concrete inputs. \<open>q\<close> holds a directory \<open>d\<close> with a file of
  7 bytes, and a file of 5 bytes; \<open>r\<close> holds a file of 5 bytes and a directory that cannot
  be read; \<open>big\<close> holds two files of \<open>2^62\<close> bytes each; nothing else exists.
\<close>

definition demo_env :: env where
  "demo_env =
     \<lparr>ReadDir = (\<lambda>p.
        if p = ''q'' then Inr [\<lparr>Name = ''d'', IsDir = True, Size = 4096\<rparr>,
                              \<lparr>Name = ''a'', IsDir = False, Size = 5\<rparr>]
        else if p = ''q/d'' then Inr [\<lparr>Name = ''b'', IsDir = False, Size = 7\<rparr>]
        else if p = ''r'' then Inr [\<lparr>Name = ''a'', IsDir = False, Size = 5\<rparr>,
                                   \<lparr>Name = ''d'', IsDir = True, Size = 4096\<rparr>]
        else if p = ''r/d'' then Inl ''open r/d: permission denied''
        else if p = ''big'' then Inr [\<lparr>Name = ''x'', IsDir = False, Size = 4611686018427387904\<rparr>,
                                     \<lparr>Name = ''y'', IsDir = False, Size = 4611686018427387904\<rparr>]
        else Inl (''open '' @ p @ '': no such file or directory'')),
      Join = (\<lambda>d e. d @ ''/'' @ e),
      NumCPU = 4, Procs = 4,
      Resize = (\<lambda>k. if k \<le> 1024 then None else Some ''fatal error: runtime: out of memory'')\<rparr>"

definition demo_cl :: "string list \<Rightarrow> cmdline" where
  "demo_cl roots = \<lparr>opt_v = False, opt_t = None, positional = roots\<rparr>"

definition tree_q :: dir where
  "tree_q = Listing [\<lparr>Name = ''d'', IsDir = True, Size = 4096\<rparr>, \<lparr>Name = ''a'', IsDir = False, Size = 5\<rparr>]
              [Listing [\<lparr>Name = ''b'', IsDir = False, Size = 7\<rparr>] []]"

definition tree_r :: dir where
  "tree_r = Listing [\<lparr>Name = ''a'', IsDir = False, Size = 5\<rparr>, \<lparr>Name = ''d'', IsDir = True, Size = 4096\<rparr>]
              [Unreadable ''open r/d: permission denied'']"

definition tree_big :: dir where
  "tree_big = Listing [\<lparr>Name = ''x'', IsDir = False, Size = 4611686018427387904\<rparr>,
                       \<lparr>Name = ''y'', IsDir = False, Size = 4611686018427387904\<rparr>] []"

text \<open>
  Schedules. On \<open>r\<close>: the root's walker sends the 5 bytes, which the main goroutine
  receives at once, then starts the walker of \<open>r/d\<close>, whose read fails.
\<close>

definition run_r :: "action list" where
  "run_r = [AMain 0, AMain 0, AMain 0, AWalker 0, AWalker 0, AWalker 0, AWalker 0, AMain 0,
            AWalker 0, AWalker 0, AWalker 1, AWalker 0, AWalker 1, AWalker 1, AWalker 1, AWalker 1,
            ACloser, ACloser, AMain 0, AMain 9]"

text \<open>On \<open>q\<close>, the root's walker first, so that the 5 bytes arrive before the 7.\<close>

definition run_q :: "action list" where
  "run_q = [AMain 0, AMain 0, AMain 0,
            AWalker 0, AWalker 0, AWalker 0, AWalker 0, AWalker 0, AWalker 0, AWalker 0,
            AWalker 1, AWalker 1, AWalker 1, AWalker 1, AWalker 1,
            ACloser, ACloser, AMain 0, AMain 0, AMain 0, AMain 3]"

text \<open>On \<open>q\<close> again, the walker of \<open>q/d\<close> overtaking, so that the 7 bytes arrive first.\<close>

definition run_q' :: "action list" where
  "run_q' = [AMain 0, AMain 0, AMain 0,
             AWalker 0, AWalker 0, AWalker 0, AWalker 0, AWalker 0,
             AWalker 1, AWalker 1, AWalker 1, AWalker 1, AMain 0, AWalker 1,
             AWalker 0, AWalker 0, ACloser, AMain 0, ACloser, AMain 0, AMain 2]"

text \<open>On the roots \<open>q\<close> and \<open>r\<close>, the walkers taking turns.\<close>

definition run_qr :: "action list" where
  "run_qr = [AMain 0, AMain 0, AMain 0, AMain 0, AMain 0,
             AWalker 0, AWalker 1, AWalker 0, AWalker 1, AWalker 0, AWalker 1,
             AWalker 0, AWalker 1, AWalker 0, AWalker 1, AWalker 0, AWalker 1, AWalker 0, AWalker 1,
             AWalker 2, AWalker 3, AWalker 2, AWalker 3, AWalker 2, AWalker 3, AWalker 2, AWalker 3,
             AWalker 2, AWalker 3,
             ACloser, AMain 0, AMain 0, ACloser, AMain 0, AMain 0, AMain 5]"

text \<open>On the root \<open>q\<close> given twice.\<close>

definition run_qq :: "action list" where
  "run_qq = [AMain 0, AMain 0, AMain 0, AMain 0, AMain 0,
             AWalker 0, AWalker 0, AWalker 0, AWalker 0, AWalker 0, AWalker 0, AWalker 0,
             AWalker 1, AWalker 1, AWalker 1, AWalker 1, AWalker 1, AWalker 1, AWalker 1,
             AWalker 2, AWalker 2, AWalker 2, AWalker 2, AWalker 2,
             AWalker 3, AWalker 3, AWalker 3, AWalker 3, AWalker 3,
             ACloser, ACloser, AMain 0, AMain 0, AMain 0, AMain 0, AMain 0, AMain 4]"

text \<open>On the root \<open>big\<close> given twice: four files of \<open>2^62\<close> bytes are received.\<close>

definition run_bb :: "action list" where
  "run_bb = [AMain 0, AMain 0, AMain 0, AMain 0, AMain 0,
             AWalker 0, AWalker 0, AWalker 0, AWalker 0, AWalker 0, AWalker 0,
             AWalker 1, AWalker 1, AWalker 1, AWalker 1, AWalker 1, AWalker 1,
             ACloser, ACloser, AMain 0, AMain 0, AMain 0, AMain 0, AMain 0, AMain 1]"

text \<open>On \<open>big\<close>, and on a root that does not exist.\<close>

definition run_big :: "action list" where
  "run_big = [AMain 0, AMain 0, AMain 0, AWalker 0, AWalker 0, AWalker 0, AWalker 0, AWalker 0,
              AWalker 0, ACloser, ACloser, AMain 0, AMain 0, AMain 0, AMain 1]"

definition run_x :: "action list" where
  "run_x = [AMain 0, AMain 0, AMain 0, AWalker 0, AWalker 0, AWalker 0, AWalker 0, AWalker 0,
            ACloser, ACloser, AMain 0, AMain 1]"

text \<open>The start of a run on \<open>q\<close> and \<open>r\<close>: both walkers are started and both take a token.\<close>

definition run_two :: "action list" where
  "run_two = [AMain 0, AMain 0, AMain 0, AMain 0, AWalker 0, AWalker 1]"

text \<open>The first eleven steps of \<open>run_r\<close>: the walker of \<open>r/d\<close> holds a token and is about to read.\<close>

definition run_d :: "action list" where
  "run_d = [AMain 0, AMain 0, AMain 0, AWalker 0, AWalker 0, AWalker 0, AWalker 0, AMain 0,
            AWalker 0, AWalker 0, AWalker 1]"

text \<open>The first two steps of a run on \<open>q\<close>: its walker is started and waits for a token.\<close>

definition run_one :: "action list" where
  "run_one = [AMain 0, AMain 0]"

text \<open>The traces and the states these schedules lead to.\<close>

definition events_r :: "event list" where
  "events_r =
     [EvAdd, EvGo ''r'', EvGoCloser, EvAcquire, EvRead ''r'', EvRelease,
      EvSend 5, EvRecv 5, EvAdd, EvGo ''r/d'', EvAcquire, EvDone,
      EvRead ''r/d'', EvStderr ''du: open r/d: permission denied\<newline>'',
      EvRelease, EvDone, EvWait, EvClose, EvBreak, EvFinal]"

definition final_r :: state where
  "final_r =
     \<lparr>mainpc = M_exit, closer = C_exit, pool = [W_exit, W_exit], wg = 0, sema = 0,
      fileSizes = [], closed = True, nfiles = 1, nbytes = 5, start = 7,
      vFlag = False, tFlag = 4,
      stdout = [''\<newline>Done!\<newline>Files: 1, Size: 0.0GB, Avg FPS: 0, Elapsed: 2 seconds\<newline>''],
      stderr = [''du: open r/d: permission denied\<newline>'']\<rparr>"

text \<open>The state of \<open>run_r\<close> before its close: the closing goroutine is past \<^verbatim>\<open>n.Wait()\<close>.\<close>

definition before_close_r :: state where
  "before_close_r =
     \<lparr>mainpc = M_loop, closer = C_close, pool = [W_exit, W_exit], wg = 0, sema = 0,
      fileSizes = [], closed = False, nfiles = 1, nbytes = 5, start = 7,
      vFlag = False, tFlag = 4,
      stdout = [],
      stderr = [''du: open r/d: permission denied\<newline>'']\<rparr>"

definition events_q :: "event list" where
  "events_q =
     [EvAdd, EvGo ''q'', EvGoCloser, EvAcquire, EvRead ''q'', EvRelease,
      EvAdd, EvGo ''q/d'', EvSend 5, EvDone, EvAcquire, EvRead ''q/d'',
      EvRelease, EvSend 7, EvDone, EvWait, EvClose, EvRecv 5, EvRecv 7,
      EvBreak, EvFinal]"

definition final_q :: state where
  "final_q =
     \<lparr>mainpc = M_exit, closer = C_exit, pool = [W_exit, W_exit], wg = 0, sema = 0,
      fileSizes = [], closed = True, nfiles = 2, nbytes = 12, start = 1,
      vFlag = False, tFlag = 4,
      stdout = [''\<newline>Done!\<newline>Files: 2, Size: 0.0GB, Avg FPS: 1, Elapsed: 2 seconds\<newline>''],
      stderr = []\<rparr>"

definition events_q' :: "event list" where
  "events_q' =
     [EvAdd, EvGo ''q'', EvGoCloser, EvAcquire, EvRead ''q'', EvRelease,
      EvAdd, EvGo ''q/d'', EvAcquire, EvRead ''q/d'', EvRelease, EvSend 7,
      EvRecv 7, EvDone, EvSend 5, EvDone, EvWait, EvRecv 5, EvClose, EvBreak,
      EvFinal]"

definition final_q' :: state where
  "final_q' =
     \<lparr>mainpc = M_exit, closer = C_exit, pool = [W_exit, W_exit], wg = 0, sema = 0,
      fileSizes = [], closed = True, nfiles = 2, nbytes = 12, start = 1,
      vFlag = False, tFlag = 4,
      stdout = [''\<newline>Done!\<newline>Files: 2, Size: 0.0GB, Avg FPS: 2, Elapsed: 1 seconds\<newline>''],
      stderr = []\<rparr>"

definition events_qr :: "event list" where
  "events_qr =
     [EvAdd, EvGo ''q'', EvAdd, EvGo ''r'', EvGoCloser, EvAcquire, EvAcquire,
      EvRead ''q'', EvRead ''r'', EvRelease, EvRelease, EvAdd, EvSend 5,
      EvGo ''q/d'', EvAdd, EvSend 5, EvGo ''r/d'', EvDone, EvDone, EvAcquire,
      EvAcquire, EvRead ''q/d'', EvRead ''r/d'', EvRelease,
      EvStderr ''du: open r/d: permission denied\<newline>'', EvSend 7, EvRelease,
      EvDone, EvDone, EvWait, EvRecv 5, EvRecv 5, EvClose, EvRecv 7, EvBreak,
      EvFinal]"

definition final_qr :: state where
  "final_qr =
     \<lparr>mainpc = M_exit, closer = C_exit, pool = [W_exit, W_exit, W_exit, W_exit], wg = 0, sema = 0,
      fileSizes = [], closed = True, nfiles = 3, nbytes = 17, start = 2,
      vFlag = False, tFlag = 4,
      stdout = [''\<newline>Done!\<newline>Files: 3, Size: 0.0GB, Avg FPS: 1, Elapsed: 3 seconds\<newline>''],
      stderr = [''du: open r/d: permission denied\<newline>'']\<rparr>"

definition events_qq :: "event list" where
  "events_qq =
     [EvAdd, EvGo ''q'', EvAdd, EvGo ''q'', EvGoCloser, EvAcquire,
      EvRead ''q'', EvRelease, EvAdd, EvGo ''q/d'', EvSend 5, EvDone,
      EvAcquire, EvRead ''q'', EvRelease, EvAdd, EvGo ''q/d'', EvSend 5,
      EvDone, EvAcquire, EvRead ''q/d'', EvRelease, EvSend 7, EvDone,
      EvAcquire, EvRead ''q/d'', EvRelease, EvSend 7, EvDone, EvWait, EvClose,
      EvRecv 5, EvRecv 5, EvRecv 7, EvRecv 7, EvBreak, EvFinal]"

definition final_qq :: state where
  "final_qq =
     \<lparr>mainpc = M_exit, closer = C_exit, pool = [W_exit, W_exit, W_exit, W_exit], wg = 0, sema = 0,
      fileSizes = [], closed = True, nfiles = 4, nbytes = 24, start = 2,
      vFlag = False, tFlag = 4,
      stdout = [''\<newline>Done!\<newline>Files: 4, Size: 0.0GB, Avg FPS: 2, Elapsed: 2 seconds\<newline>''],
      stderr = []\<rparr>"

definition events_big :: "event list" where
  "events_big =
     [EvAdd, EvGo ''big'', EvGoCloser, EvAcquire, EvRead ''big'', EvRelease,
      EvSend 4611686018427387904, EvSend 4611686018427387904, EvDone, EvWait,
      EvClose, EvRecv 4611686018427387904, EvRecv 4611686018427387904,
      EvBreak, EvFinal]"

definition final_big :: state where
  "final_big =
     \<lparr>mainpc = M_exit, closer = C_exit, pool = [W_exit], wg = 0, sema = 0,
      fileSizes = [], closed = True, nfiles = 2, nbytes = 9223372036854775808, start = 0,
      vFlag = False, tFlag = 4,
      stdout = [''\<newline>Done!\<newline>Files: 2, Size: -9223372036.9GB, Avg FPS: 2, Elapsed: 1 seconds\<newline>''],
      stderr = []\<rparr>"

definition events_bb :: "event list" where
  "events_bb =
     [EvAdd, EvGo ''big'', EvAdd, EvGo ''big'', EvGoCloser,
      EvAcquire, EvRead ''big'', EvRelease,
      EvSend 4611686018427387904, EvSend 4611686018427387904, EvDone,
      EvAcquire, EvRead ''big'', EvRelease,
      EvSend 4611686018427387904, EvSend 4611686018427387904, EvDone,
      EvWait, EvClose,
      EvRecv 4611686018427387904, EvRecv 4611686018427387904,
      EvRecv 4611686018427387904, EvRecv 4611686018427387904,
      EvBreak, EvFinal]"

definition final_bb :: state where
  "final_bb =
     \<lparr>mainpc = M_exit, closer = C_exit, pool = [W_exit, W_exit], wg = 0, sema = 0,
      fileSizes = [], closed = True, nfiles = 4, nbytes = 0, start = 0,
      vFlag = False, tFlag = 4,
      stdout = [''\<newline>Done!\<newline>Files: 4, Size: 0.0GB, Avg FPS: 4, Elapsed: 1 seconds\<newline>''],
      stderr = []\<rparr>"

definition events_x :: "event list" where
  "events_x =
     [EvAdd, EvGo ''x'', EvGoCloser, EvAcquire, EvRead ''x'',
      EvStderr ''du: open x: no such file or directory\<newline>'', EvRelease, EvDone,
      EvWait, EvClose, EvBreak, EvFinal]"

definition final_x :: state where
  "final_x =
     \<lparr>mainpc = M_exit, closer = C_exit, pool = [W_exit], wg = 0, sema = 0,
      fileSizes = [], closed = True, nfiles = 0, nbytes = 0, start = 0,
      vFlag = False, tFlag = 4,
      stdout = [''\<newline>Done!\<newline>Files: 0, Size: 0.0GB, Avg FPS: 0, Elapsed: 1 seconds\<newline>''],
      stderr = [''du: open x: no such file or directory\<newline>'']\<rparr>"

definition events_two :: "event list" where
  "events_two =
     [EvAdd, EvGo ''q'', EvAdd, EvGo ''r'', EvAcquire, EvAcquire]"

definition final_two :: state where
  "final_two =
     \<lparr>mainpc = M_roots [], closer = C_unborn, pool = [W_readdir ''q'', W_readdir ''r''], wg = 2, sema = 2,
      fileSizes = [], closed = False, nfiles = 0, nbytes = 0, start = 0,
      vFlag = False, tFlag = 1,
      stdout = [],
      stderr = []\<rparr>"

definition events_d :: "event list" where
  "events_d =
     [EvAdd, EvGo ''r'', EvGoCloser, EvAcquire, EvRead ''r'', EvRelease,
      EvSend 5, EvRecv 5, EvAdd, EvGo ''r/d'', EvAcquire]"

definition final_d :: state where
  "final_d =
     \<lparr>mainpc = M_loop, closer = C_wait, pool = [W_range ''r'' [], W_readdir ''r/d''], wg = 2, sema = 1,
      fileSizes = [], closed = False, nfiles = 1, nbytes = 5, start = 7,
      vFlag = False, tFlag = 4,
      stdout = [],
      stderr = []\<rparr>"

definition events_one :: "event list" where
  "events_one = [EvAdd, EvGo ''q'']"

definition final_one :: state where
  "final_one =
     \<lparr>mainpc = M_roots [], closer = C_unborn, pool = [W_acquire ''q''], wg = 1, sema = 0,
      fileSizes = [], closed = False, nfiles = 0, nbytes = 0, start = 1,
      vFlag = False, tFlag = 4,
      stdout = [],
      stderr = []\<rparr>"

text \<open>
  On 257 times the root \<open>q\<close>: all the walkers are started and the first 256 take a token;
  the last one finds the gate full.
\<close>

definition run_full :: "action list" where
  "run_full = concat (replicate 257 [AMain 0, AMain 0]) @ map AWalker [0..<256]"

definition events_full :: "event list" where
  "events_full = concat (replicate 257 [EvAdd, EvGo ''q'']) @ replicate 256 EvAcquire"

definition final_full :: state where
  "final_full =
     \<lparr>mainpc = M_roots [], closer = C_unborn,
      pool = replicate 256 (W_readdir ''q'') @ [W_acquire ''q''], wg = 257, sema = 256,
      fileSizes = [], closed = False, nfiles = 0, nbytes = 0, start = 0,
      vFlag = False, tFlag = 4,
      stdout = [],
      stderr = []\<rparr>"

section \<open>Lemmas\<close>

subsection \<open>Trees\<close>

lemma agrees_unique: "agrees env d t \<Longrightarrow> agrees env d t' \<Longrightarrow> t = t'"
proof (induction t arbitrary: d t')
  case (Unreadable x)
  then show ?case by (cases t') auto
next
  case (Listing es subs)
  from Listing.prems obtain subs' where t': "t' = Listing es subs'"
    by (cases t') auto
  let ?P = "\<lambda>entry sub. agrees env (Join env d (Name entry)) sub"
  from Listing.prems t' have a: "list_all2 ?P (filter IsDir es) subs"
    and b: "list_all2 ?P (filter IsDir es) subs'" by auto
  have "subs = subs'"
  proof (rule nth_equalityI)
    show "length subs = length subs'"
      using a b by (auto dest!: list_all2_lengthD)
  next
    fix i assume i: "i < length subs"
    then have "subs ! i \<in> set subs" by simp
    moreover have "?P (filter IsDir es ! i) (subs ! i)"
      using a i by (simp add: list_all2_conv_all_nth)
    moreover have "?P (filter IsDir es ! i) (subs' ! i)"
      using a b i by (simp add: list_all2_conv_all_nth)
    ultimately show "subs ! i = subs' ! i" by (rule Listing.IH)
  qed
  then show ?case using t' by simp
qed

lemma tree_at_eq: "agrees env d t \<Longrightarrow> tree_at env d = t"
  unfolding tree_at_def by (rule the_equality) (auto dest: agrees_unique)

lemma known_Inl: "ReadDir env d = Inl err \<Longrightarrow> tree_at env d = Unreadable err"
  by (rule tree_at_eq) simp

lemma list_all2_map_eq: "list_all2 (\<lambda>x y. f x = y) xs ys \<Longrightarrow> map f xs = ys"
  by (induction rule: list_all2_induct) auto

lemma known_Inr:
  assumes "known env d" "ReadDir env d = Inr es"
  shows "tree_at env d = Listing es (map (\<lambda>e. tree_at env (Join env d (Name e))) (filter IsDir es))"
    and "ents_ok env d es"
proof -
  from assms obtain t where t: "agrees env d t" by (auto simp: known_def)
  with assms(2) obtain subs where ts: "t = Listing es subs" by (cases t) auto
  let ?P = "\<lambda>entry sub. agrees env (Join env d (Name entry)) sub"
  from t ts have a: "list_all2 ?P (filter IsDir es) subs" by simp
  then have "list_all2 (\<lambda>e sub. tree_at env (Join env d (Name e)) = sub) (filter IsDir es) subs"
    by (rule list_all2_mono) (simp add: tree_at_eq)
  then have "map (\<lambda>e. tree_at env (Join env d (Name e))) (filter IsDir es) = subs"
    by (rule list_all2_map_eq)
  with t ts show "tree_at env d = Listing es (map (\<lambda>e. tree_at env (Join env d (Name e))) (filter IsDir es))"
    by (simp add: tree_at_eq)
  show "ents_ok env d es"
    unfolding ents_ok_def
  proof (intro ballI impI)
    fix e assume "e \<in> set es" "IsDir e"
    then have "e \<in> set (filter IsDir es)" by simp
    then obtain i where i: "i < length (filter IsDir es)" "filter IsDir es ! i = e"
      unfolding in_set_conv_nth by blast
    with a have "?P e (subs ! i)" by (auto simp: list_all2_conv_all_nth)
    then show "known env (Join env d (Name e))" by (auto simp: known_def)
  qed
qed

subsection \<open>The steps of the program\<close>

text \<open>Every step that is taken is one of eighteen, each with the state it leads to.\<close>

lemma step_cases [consumes 1, case_names root_add root_go go_closer recv brk fin tick wait close
    acquire read_err read_ok report release wdone add send go]:
  assumes "step env s a = Next ev s'"
  obtains
    (root_add) now root rest where "a = AMain now" "mainpc s = M_roots (root # rest)" "ev = EvAdd"
      "s' = s\<lparr>wg := wg s + 1, mainpc := M_go root rest\<rparr>"
  | (root_go) now root rest where "a = AMain now" "mainpc s = M_go root rest" "ev = EvGo root"
      "s' = s\<lparr>mainpc := M_roots rest, pool := pool s @ [W_acquire root]\<rparr>"
  | (go_closer) now where "a = AMain now" "mainpc s = M_roots []" "ev = EvGoCloser"
      "s' = s\<lparr>mainpc := M_loop, closer := C_wait\<rparr>"
  | (recv) now sz rest where "a = AMain now" "mainpc s = M_loop" "fileSizes s = sz # rest"
      "ev = EvRecv sz"
      "s' = s\<lparr>fileSizes := rest, nfiles := nfiles s + 1, nbytes := nbytes s + sz\<rparr>"
  | (brk) now where "a = AMain now" "mainpc s = M_loop" "fileSizes s = []" "closed s"
      "ev = EvBreak" "s' = s\<lparr>mainpc := M_final\<rparr>"
  | (fin) now out where "a = AMain now" "mainpc s = M_final"
      "printDiskUsage (nfiles s) (nbytes s) (start s) now = Some out" "ev = EvFinal"
      "s' = s\<lparr>stdout := stdout s @ [out], mainpc := M_exit\<rparr>"
  | (tick) now out where "a = ATick now" "vFlag s" "mainpc s = M_loop"
      "printProgress (NumGoroutine s) (nfiles s) (nbytes s) (start s) now = Some out"
      "ev = EvTick" "s' = s\<lparr>stdout := stdout s @ [out]\<rparr>"
  | (wait) "a = ACloser" "closer s = C_wait" "wg s = 0" "ev = EvWait" "mainpc s \<noteq> M_exit"
      "s' = s\<lparr>closer := C_close\<rparr>"
  | (close) "a = ACloser" "closer s = C_close" "\<not> closed s" "ev = EvClose" "mainpc s \<noteq> M_exit"
      "s' = s\<lparr>closed := True, closer := C_exit\<rparr>"
  | (acquire) pre post d where "a = AWalker (length pre)" "pool s = pre @ W_acquire d # post"
      "sema s < 256" "ev = EvAcquire" "mainpc s \<noteq> M_exit"
      "s' = s\<lparr>sema := sema s + 1, pool := pre @ W_readdir d # post\<rparr>"
  | (read_err) pre post d err where "a = AWalker (length pre)" "pool s = pre @ W_readdir d # post"
      "ReadDir env d = Inl err" "ev = EvRead d" "mainpc s \<noteq> M_exit"
      "s' = s\<lparr>pool := pre @ W_report d err # post\<rparr>"
  | (read_ok) pre post d es where "a = AWalker (length pre)" "pool s = pre @ W_readdir d # post"
      "ReadDir env d = Inr es" "ev = EvRead d" "mainpc s \<noteq> M_exit"
      "s' = s\<lparr>pool := pre @ W_release d es # post\<rparr>"
  | (report) pre post d err where "a = AWalker (length pre)" "pool s = pre @ W_report d err # post"
      "ev = EvStderr (errline err)" "mainpc s \<noteq> M_exit"
      "s' = s\<lparr>stderr := stderr s @ [errline err], pool := pre @ W_release d [] # post\<rparr>"
  | (release) pre post d es where "a = AWalker (length pre)" "pool s = pre @ W_release d es # post"
      "sema s \<noteq> 0" "ev = EvRelease" "mainpc s \<noteq> M_exit"
      "s' = s\<lparr>sema := sema s - 1, pool := pre @ W_range d es # post\<rparr>"
  | (wdone) pre post d where "a = AWalker (length pre)" "pool s = pre @ W_range d [] # post"
      "0 \<le> wg s - 1" "ev = EvDone" "mainpc s \<noteq> M_exit"
      "s' = s\<lparr>wg := wg s - 1, pool := pre @ W_exit # post\<rparr>"
  | (add) pre post d e es where "a = AWalker (length pre)" "pool s = pre @ W_range d (e # es) # post"
      "IsDir e" "ev = EvAdd" "mainpc s \<noteq> M_exit"
      "s' = s\<lparr>wg := wg s + 1, pool := pre @ W_go d e es # post\<rparr>"
  | (send) pre post d e es where "a = AWalker (length pre)" "pool s = pre @ W_range d (e # es) # post"
      "\<not> IsDir e" "\<not> closed s" "length (fileSizes s) < 256" "ev = EvSend (Size e)"
      "mainpc s \<noteq> M_exit"
      "s' = s\<lparr>fileSizes := fileSizes s @ [Size e], pool := pre @ W_range d es # post\<rparr>"
  | (go) pre post d e es where "a = AWalker (length pre)" "pool s = pre @ W_go d e es # post"
      "ev = EvGo (Join env d (Name e))" "mainpc s \<noteq> M_exit"
      "s' = s\<lparr>pool := pre @ W_range d es # post @ [W_acquire (Join env d (Name e))]\<rparr>"
proof -
  from assms have ne: "mainpc s \<noteq> M_exit"
    by (auto simp: step_def split: if_splits)
  show thesis
  proof (cases a)
    case (AMain now)
    with assms ne have m: "main_step env s now = Next ev s'" by (simp add: step_def)
    show thesis
    proof (cases "mainpc s")
      case (M_roots rs)
      with m AMain show thesis
        by (cases rs) (auto simp: main_step_def intro: root_add go_closer)
    next
      case (M_go r rs)
      with m AMain show thesis by (auto simp: main_step_def intro: root_go)
    next
      case M_loop
      with m AMain show thesis
        by (cases "fileSizes s") (auto simp: main_step_def split: if_splits intro: recv brk)
    next
      case M_final
      with m AMain show thesis
        by (auto simp: main_step_def split: option.splits intro: fin)
    next
      case M_exit
      with ne show thesis by simp
    qed
  next
    case (ATick now)
    with assms ne show thesis
      by (auto simp: step_def tick_step_def split: if_splits option.splits intro: tick)
  next
    case ACloser
    with assms ne show thesis
      by (cases "closer s") (auto simp: step_def closer_step_def split: if_splits intro: wait close)
  next
    case (AWalker i)
    with assms ne have w: "walker_step env s i = Next ev s'" by (simp add: step_def)
    then have i: "i < length (pool s)"
      by (auto simp: walker_step_def split: if_splits)
    define pre where "pre = take i (pool s)"
    define post where "post = drop (Suc i) (pool s)"
    have len: "i = length pre" using i by (simp add: pre_def)
    have p: "pool s = pre @ (pool s ! i) # post"
      using i by (simp add: pre_def post_def id_take_nth_drop)
    have u: "\<And>y. (pool s)[i := y] = pre @ y # post"
      using i by (simp add: pre_def post_def upd_conv_take_nth_drop)
    show thesis
    proof (cases "pool s ! i")
      case (W_acquire d)
      with w i u p len AWalker ne show thesis
        by (auto simp: walker_step_def split: if_splits intro: acquire)
    next
      case (W_readdir d)
      with w i u p len AWalker ne show thesis
        by (auto simp: walker_step_def split: if_splits sum.splits intro: read_err read_ok)
    next
      case (W_report d err)
      with w i u p len AWalker ne show thesis
        by (auto simp: walker_step_def errline_def split: if_splits intro: report)
    next
      case (W_release d es)
      with w i u p len AWalker ne show thesis
        by (auto simp: walker_step_def split: if_splits intro: release)
    next
      case (W_range d es)
      with w i u p len AWalker ne show thesis
        by (cases es) (auto simp: walker_step_def split: if_splits intro: wdone add send)
    next
      case (W_go d e es)
      with w i u p len AWalker ne show thesis
        by (auto simp: walker_step_def split: if_splits intro: go)
    next
      case W_exit
      with w i show thesis by (simp add: walker_step_def)
    qed
  qed
qed

lemma exec_append:
  "exec env s (as @ bs) =
     (case exec env s as of None \<Rightarrow> None
      | Some (evs, s') \<Rightarrow> (case exec env s' bs of None \<Rightarrow> None
                           | Some (evs', s'') \<Rightarrow> Some (evs @ evs', s'')))"
  by (induction as arbitrary: s) (auto split: outcome.splits option.splits)

lemma exec_snoc:
  "exec env s (as @ [a]) = Some (evs', s'') \<longleftrightarrow>
     (\<exists>evs s' ev. exec env s as = Some (evs, s') \<and> step env s' a = Next ev s'' \<and> evs' = evs @ [ev])"
  by (auto simp: exec_append split: option.splits outcome.splits)

lemma exec_induct [consumes 1, case_names init step]:
  assumes "exec env s0 acts = Some (evs, s)"
    and "P [] [] s0"
    and "\<And>acts evs s a ev s'. exec env s0 acts = Some (evs, s) \<Longrightarrow> P acts evs s \<Longrightarrow>
           step env s a = Next ev s' \<Longrightarrow> P (acts @ [a]) (evs @ [ev]) s'"
  shows "P acts evs s"
  using assms(1)
proof (induction acts arbitrary: evs s rule: rev_induct)
  case Nil
  then show ?case using assms(2) by simp
next
  case (snoc a acts)
  then show ?case using assms(3) by (auto simp: exec_snoc)
qed

subsection \<open>What a directory yields and costs\<close>

lemma yield_Inl: "ReadDir env d = Inl err \<Longrightarrow> yield (tree_at env d) = {#ErrLine (errline err)#}"
  by (simp add: known_Inl yield_def)

lemma sum_list_yield:
  "sum_list (map yield ts) =
     image_mset FileSize (mset (concat (map files ts)))
     + image_mset ErrLine (mset (map errline (concat (map failures ts))))"
  by (induction ts) (auto simp: yield_def)

lemma yield_Listing_eq:
  "yield (Listing es subs) =
     image_mset FileSize (mset (map Size (filter (\<lambda>e. \<not> IsDir e) es))) + sum_list (map yield subs)"
  unfolding sum_list_yield by (simp add: yield_def)

lemma yield_Listing:
  "yield (Listing es (map (\<lambda>e. tree_at env (Join env d (Name e))) (filter IsDir es))) = ent_items env d es"
  unfolding yield_Listing_eq by (induction es) (auto simp: ent_items_def)

lemma yield_Inr: "known env d \<Longrightarrow> ReadDir env d = Inr es \<Longrightarrow> yield (tree_at env d) = ent_items env d es"
  by (simp add: known_Inr(1) yield_Listing)

lemma work_Inl: "ReadDir env d = Inl err \<Longrightarrow> work (tree_at env d) = 4"
  by (simp add: known_Inl)

lemma work_Inr:
  assumes "known env d" "ReadDir env d = Inr es"
  shows "work (tree_at env d) = 3 + ent_work env d es"
proof -
  have "2 * length es + sum_list (map (\<lambda>e. Suc (work (tree_at env (Join env d (Name e))))) (filter IsDir es))
        = ent_work env d es"
    by (induction es) (auto simp: ent_work_def)
  then show ?thesis using assms by (simp add: known_Inr(1) comp_def)
qed

lemma ent_items_simps [simp]:
  "ent_items env d [] = {#}"
  "IsDir e \<Longrightarrow> ent_items env d (e # es) = yield (tree_at env (Join env d (Name e))) + ent_items env d es"
  "\<not> IsDir e \<Longrightarrow> ent_items env d (e # es) = add_mset (FileSize (Size e)) (ent_items env d es)"
  by (simp_all add: ent_items_def)

lemma ent_work_simps [simp]:
  "ent_work env d [] = 0"
  "IsDir e \<Longrightarrow> ent_work env d (e # es) = 3 + work (tree_at env (Join env d (Name e))) + ent_work env d es"
  "\<not> IsDir e \<Longrightarrow> ent_work env d (e # es) = 2 + ent_work env d es"
  by (simp_all add: ent_work_def)

lemma ents_ok_simps [simp]:
  "ents_ok env d []"
  "ents_ok env d (e # es) \<longleftrightarrow> (IsDir e \<longrightarrow> known env (Join env d (Name e))) \<and> ents_ok env d es"
  by (simp_all add: ents_ok_def)

lemma sends_simps [simp]:
  "sends [] = []"
  "sends (evs @ evs') = sends evs @ sends evs'"
  "sends [EvSend v] = [v]"
  "\<not> is_send ev \<Longrightarrow> sends [ev] = []"
  by (auto simp: sends_def is_send_def split: event.splits)

lemma recvs_simps [simp]:
  "recvs [] = []"
  "recvs (evs @ evs') = recvs evs @ recvs evs'"
  "recvs [EvRecv v] = [v]"
  "ev \<noteq> EvRecv v' \<Longrightarrow> \<forall>v. ev \<noteq> EvRecv v \<Longrightarrow> recvs [ev] = []"
  by (auto simp: recvs_def split: event.splits)

subsection \<open>Every step keeps the invariants\<close>

lemma inv_sema_step: "step env s a = Next ev s' \<Longrightarrow> inv_sema s \<Longrightarrow> inv_sema s'"
  by (erule step_cases) (auto simp: inv_sema_def)

lemma inv_wg_step: "step env s a = Next ev s' \<Longrightarrow> inv_wg s \<Longrightarrow> inv_wg s'"
  by (erule step_cases) (auto simp: inv_wg_def)

lemma inv_ctl_step: "step env s a = Next ev s' \<Longrightarrow> inv_wg s \<Longrightarrow> inv_ctl s \<Longrightarrow> inv_ctl s'"
  by (erule step_cases) (auto simp: inv_ctl_def inv_wg_def)

lemma inv_ok_step: "step env s a = Next ev s' \<Longrightarrow> inv_ok env s \<Longrightarrow> inv_ok env s'"
  by (erule step_cases) (auto simp: inv_ok_def known_Inr(2))

lemma inv_items_step:
  "step env s a = Next ev s' \<Longrightarrow> inv_ok env s \<Longrightarrow> inv_items env tot evs s \<Longrightarrow>
   inv_items env tot (evs @ [ev]) s'"
  by (erule step_cases) (auto simp: inv_items_def inv_ok_def yield_Inl yield_Inr is_send_def)

lemma inv_chan_step:
  "step env s a = Next ev s' \<Longrightarrow> inv_chan evs s \<Longrightarrow> inv_chan (evs @ [ev]) s'"
  by (erule step_cases) (auto simp: inv_chan_def is_send_def)

lemma meas_step:
  "step env s a = Next ev s' \<Longrightarrow> inv_ok env s \<Longrightarrow> inv_ctl s \<Longrightarrow>
   (if is_tick a then meas env s' = meas env s else meas env s' < meas env s)"
  by (erule step_cases) (auto simp: meas_def inv_ok_def inv_ctl_def is_tick_def work_Inl work_Inr)

lemma inv_trace_step:
  "step env s a = Next ev s' \<Longrightarrow> inv_ctl s \<Longrightarrow> inv_trace evs s \<Longrightarrow> inv_trace (evs @ [ev]) s'"
  by (erule step_cases) (auto simp: inv_trace_def inv_ctl_def is_go_def is_read_def)

subsection \<open>No panic, no deadlock\<close>

lemma printDiskUsage_Some: "\<exists>out. printDiskUsage nf nb st now = Some out"
  by (simp add: printDiskUsage_def div64_def Let_def)

lemma printProgress_Some: "\<exists>out. printProgress ngo nf nb st now = Some out"
  by (simp add: printProgress_def div64_def Let_def)

lemma wgc_member_le: "w \<in> set ws \<Longrightarrow> wgc w \<le> sum_list (map wgc ws)"
  by (induction ws) auto

lemma wgc_le: "i < length ws \<Longrightarrow> wgc (ws ! i) \<le> sum_list (map wgc ws)"
  by (rule wgc_member_le) simp

lemma no_panic: "inv_wg s \<Longrightarrow> inv_ctl s \<Longrightarrow> step env s a \<noteq> Panic msg"
proof (cases a)
  case (AMain now)
  then show ?thesis
    using printDiskUsage_Some [of "nfiles s" "nbytes s" "start s" now]
    by (auto simp: step_def main_step_def split: mpc.splits list.splits)
next
  case (ATick now)
  then show ?thesis
    using printProgress_Some [of "NumGoroutine s" "nfiles s" "nbytes s" "start s" now]
    by (auto simp: step_def tick_step_def)
next
  case ACloser
  assume "inv_ctl s"
  with ACloser show ?thesis
    by (auto simp: step_def closer_step_def inv_ctl_def split: cpc.splits)
next
  case (AWalker i)
  assume a: "inv_wg s" "inv_ctl s"
  show ?thesis
  proof (cases "i < length (pool s)")
    case False
    with AWalker show ?thesis by (simp add: step_def walker_step_def)
  next
    case True
    then have "wgc (pool s ! i) \<le> sum_list (map wgc (pool s))" by (rule wgc_le)
    with a AWalker True show ?thesis
      by (auto simp: step_def walker_step_def inv_wg_def inv_ctl_def split: wpc.splits list.splits sum.splits)
  qed
qed

lemma sum_list_pos_member:
  "0 < sum_list (map f ws) \<Longrightarrow> \<exists>i < length ws. 0 < (f (ws ! i) :: nat)"
proof (induction ws)
  case Nil
  then show ?case by simp
next
  case (Cons w ws)
  show ?case
  proof (cases "0 < f w")
    case True
    then have "0 < length (w # ws) \<and> 0 < f ((w # ws) ! 0)" by simp
    then show ?thesis by blast
  next
    case False
    with Cons obtain i where "i < length ws" "0 < f (ws ! i)" by auto
    then have "Suc i < length (w # ws) \<and> 0 < f ((w # ws) ! Suc i)" by simp
    then show ?thesis by blast
  qed
qed

lemma walker_enabled:
  assumes "inv_sema s" "inv_wg s" "inv_ctl s" "mainpc s \<noteq> M_exit"
    and "\<not> closed s" "fileSizes s = []" "0 < sum_list (map wgc (pool s))"
  shows "\<exists>i ev s'. step env s (AWalker i) = Next ev s'"
proof (cases "0 < sum_list (map holds (pool s))")
  case True
  then obtain i where i: "i < length (pool s)" "0 < holds (pool s ! i)"
    using sum_list_pos_member by blast
  from True assms(1) have "sema s \<noteq> 0"
    unfolding inv_sema_def by linarith
  with i assms(4) have "\<exists>ev s'. step env s (AWalker i) = Next ev s'"
    by (cases "pool s ! i")
      (auto simp: step_def walker_step_def split: sum.splits)
  then show ?thesis ..
next
  case False
  with assms(1) have sema0: "sema s = 0" by (simp add: inv_sema_def)
  from assms(7) obtain i where i: "i < length (pool s)" "0 < wgc (pool s ! i)"
    using sum_list_pos_member by blast
  from assms(2,7) have wgpos: "0 < wg s" unfolding inv_wg_def by linarith
  from i False have nh: "holds (pool s ! i) = 0"
    using member_le_sum_list [of "holds (pool s ! i)" "map holds (pool s)"] by auto
  have "\<exists>ev s'. step env s (AWalker i) = Next ev s'"
  proof (cases "pool s ! i")
    case (W_range d es)
    with i sema0 wgpos assms(4,5,6) show ?thesis
      by (cases es) (auto simp: step_def walker_step_def)
  qed (use i nh sema0 assms(4) in \<open>auto simp: step_def walker_step_def\<close>)
  then show ?thesis ..
qed

lemma progress:
  assumes "inv_sema s" "inv_wg s" "inv_ctl s" "mainpc s \<noteq> M_exit"
  shows "\<exists>a ev s'. \<not> is_tick a \<and> step env s a = Next ev s'"
proof (cases "mainpc s")
  case (M_roots rs)
  then have "\<exists>ev s'. step env s (AMain 0) = Next ev s'"
    by (cases rs) (auto simp: step_def main_step_def)
  then show ?thesis by (auto simp: is_tick_def intro: exI [of _ "AMain 0"])
next
  case (M_go r rs)
  then have "\<exists>ev s'. step env s (AMain 0) = Next ev s'"
    by (auto simp: step_def main_step_def)
  then show ?thesis by (auto simp: is_tick_def intro: exI [of _ "AMain 0"])
next
  case M_final
  then have "\<exists>ev s'. step env s (AMain 0) = Next ev s'"
    using printDiskUsage_Some [of "nfiles s" "nbytes s" "start s" 0]
    by (auto simp: step_def main_step_def)
  then show ?thesis by (auto simp: is_tick_def intro: exI [of _ "AMain 0"])
next
  case M_exit
  with assms show ?thesis by simp
next
  case M_loop
  show ?thesis
  proof (cases "fileSizes s = [] \<and> \<not> closed s")
    case False
    with M_loop have "\<exists>ev s'. step env s (AMain 0) = Next ev s'"
      by (cases "fileSizes s") (auto simp: step_def main_step_def)
    then show ?thesis by (auto simp: is_tick_def intro: exI [of _ "AMain 0"])
  next
    case True
    with assms(3) M_loop have c: "closer s = C_wait \<or> closer s = C_close"
      by (cases "closer s") (auto simp: inv_ctl_def)
    show ?thesis
    proof (cases "closer s = C_wait \<and> wg s \<noteq> 0")
      case False
      with c True M_loop have "\<exists>ev s'. step env s ACloser = Next ev s'"
        by (auto simp: step_def closer_step_def)
      then show ?thesis by (auto simp: is_tick_def intro: exI [of _ ACloser])
    next
      case w: True
      from assms(2) M_loop have "wg s = int (sum_list (map wgc (pool s)))"
        by (simp add: inv_wg_def)
      with w have "0 < sum_list (map wgc (pool s))"
        by linarith
      with assms True obtain i where "\<exists>ev s'. step env s (AWalker i) = Next ev s'"
        using walker_enabled [of s env] by blast
      then show ?thesis by (auto simp: is_tick_def intro: exI [of _ "AWalker i"])
    qed
  qed
qed

subsection \<open>Reachable states\<close>

lemma init_simps [simp]:
  "mainpc (init env cl t0) = M_roots (roots_of cl)"
  "closer (init env cl t0) = C_unborn"
  "pool (init env cl t0) = []"
  "wg (init env cl t0) = 0"
  "sema (init env cl t0) = 0"
  "fileSizes (init env cl t0) = []"
  "closed (init env cl t0) = False"
  "nfiles (init env cl t0) = 0"
  "nbytes (init env cl t0) = 0"
  "start (init env cl t0) = t0"
  "vFlag (init env cl t0) = opt_v cl"
  "tFlag (init env cl t0) = (case opt_t cl of None \<Rightarrow> NumCPU env | Some k \<Rightarrow> k)"
  "stdout (init env cl t0) = []"
  "stderr (init env cl t0) = []"
  by (simp_all add: init_def roots_of_def Let_def)

lemma step_consts:
  "step env s a = Next ev s' \<Longrightarrow>
   vFlag s' = vFlag s \<and> start s' = start s \<and> tFlag s' = tFlag s"
  by (erule step_cases) auto

lemma inv_basic_init: "inv_basic [] (init env cl t0)"
  by (simp add: inv_basic_def inv_sema_def inv_wg_def inv_ctl_def inv_trace_def inv_chan_def)

lemma inv_basic_step:
  "step env s a = Next ev s' \<Longrightarrow> inv_basic evs s \<Longrightarrow> inv_basic (evs @ [ev]) s'"
  unfolding inv_basic_def
  by (intro conjI) (auto intro: inv_sema_step inv_wg_step inv_ctl_step inv_trace_step inv_chan_step)

lemma reach_basic:
  assumes "exec env (init env cl t0) acts = Some (evs, s)"
  shows "inv_basic evs s \<and> length evs = length acts \<and> vFlag s = opt_v cl \<and> start s = t0
         \<and> tFlag s = (case opt_t cl of None \<Rightarrow> NumCPU env | Some k \<Rightarrow> k)"
  using assms
proof (induction rule: exec_induct)
  case init
  show ?case by (simp add: inv_basic_init)
next
  case (step acts evs s a ev s')
  then show ?case using step_consts [of env s a ev s'] by (auto intro: inv_basic_step)
qed

lemma roots_trees:
  "list_all2 (agrees env) rs ts \<Longrightarrow> map (tree_at env) rs = ts \<and> (\<forall>r\<in>set rs. known env r)"
  by (induction rule: list_all2_induct) (auto simp: tree_at_eq known_def)

lemma reach_tree:
  assumes "exec env (init env cl t0) acts = Some (evs, s)"
    and "list_all2 (agrees env) (roots_of cl) ts"
  shows "inv_ok env s \<and> inv_items env (sum_list (map yield ts)) evs s
         \<and> meas env s + length (filter (\<lambda>a. \<not> is_tick a) acts) \<le> steps_bound ts"
  using assms(1)
proof (induction rule: exec_induct)
  case init
  from assms(2) have m: "map (tree_at env) (roots_of cl) = ts" and k: "\<forall>r\<in>set (roots_of cl). known env r"
    using roots_trees by blast+
  have "map (\<lambda>r. yield (tree_at env r)) (roots_of cl) = map yield ts"
    and "map (\<lambda>r. 3 + work (tree_at env r)) (roots_of cl) = map (\<lambda>t. 3 + work t) ts"
    using m by auto
  with k show ?case
    by (simp add: inv_ok_def inv_items_def meas_def steps_bound_def)
next
  case (step acts evs s a ev s')
  from step(1) have b: "inv_basic evs s" using reach_basic by blast
  with step have "if is_tick a then meas env s' = meas env s else meas env s' < meas env s"
    by (intro meas_step) (auto simp: inv_basic_def)
  with step show ?case
    by (auto intro: inv_ok_step inv_items_step split: if_splits)
qed

subsection \<open>When \<^verbatim>\<open>main\<close> has returned\<close>

lemma wgc_zero: "sum_list (map wgc ws) = 0 \<Longrightarrow> w \<in> set ws \<Longrightarrow> w = W_exit"
  by (cases w) auto

lemma all_exited:
  assumes "sum_list (map wgc ws) = 0"
  shows "sum_list (map (w_items env) ws) = {#}" "sum_list (map holds ws) = 0"
proof -
  from assms have "\<forall>w\<in>set ws. w = W_exit" by (blast intro: wgc_zero)
  then show "sum_list (map (w_items env) ws) = {#}" "sum_list (map holds ws) = 0"
    by (induction ws) auto
qed

lemma final_facts:
  assumes "inv_basic evs s" "mainpc s = M_exit"
  shows "fileSizes s = []" "closed s" "closer s = C_exit" "wg s = 0"
    "sum_list (map wgc (pool s)) = 0" "sema s = 0"
proof -
  from assms show c: "fileSizes s = []" "closed s" "closer s = C_exit" "wg s = 0"
    by (auto simp: inv_basic_def inv_ctl_def)
  with assms have "int (sum_list (map wgc (pool s))) = 0"
    by (simp add: inv_basic_def inv_wg_def)
  then show z: "sum_list (map wgc (pool s)) = 0" by linarith
  then have "sum_list (map holds (pool s)) = 0" by (rule all_exited)
  with assms show "sema s = 0" by (simp add: inv_basic_def inv_sema_def)
qed

lemma file_of_proj:
  "sum_mset (image_mset file_of (image_mset FileSize X)) = X"
  "sum_mset (image_mset file_of (image_mset ErrLine Y)) = {#}"
  "sum_mset (image_mset line_of (image_mset FileSize X)) = {#}"
  "sum_mset (image_mset line_of (image_mset ErrLine Y)) = Y"
  by (induction X, simp_all) (induction Y, simp_all)+

lemma split_items:
  assumes "image_mset FileSize A + image_mset ErrLine B = image_mset FileSize A' + image_mset ErrLine B'"
  shows "A = A' \<and> B = B'"
proof -
  from assms have "sum_mset (image_mset file_of (image_mset FileSize A + image_mset ErrLine B))
      = sum_mset (image_mset file_of (image_mset FileSize A' + image_mset ErrLine B'))"
    by (rule arg_cong)
  then have 1: "A = A'" by (simp only: image_mset_union sum_mset.union file_of_proj add_0_right)
  from assms have "sum_mset (image_mset line_of (image_mset FileSize A + image_mset ErrLine B))
      = sum_mset (image_mset line_of (image_mset FileSize A' + image_mset ErrLine B'))"
    by (rule arg_cong)
  then have "B = B'" by (simp only: image_mset_union sum_mset.union file_of_proj add_0_left)
  with 1 show ?thesis by simp
qed

lemma final_totals:
  assumes "list_all2 (agrees env) (roots_of cl) ts"
    and "exec env (init env cl t0) acts = Some (evs, s)"
    and "mainpc s = M_exit"
  shows "mset (sends evs) = mset (concat (map files ts))"
    and "mset (stderr s) = mset (map errline (concat (map failures ts)))"
    and "recvs evs = sends evs"
    and "nfiles s = of_nat (length (concat (map files ts)))"
    and "nbytes s = sum_list (concat (map files ts))"
proof -
  from assms(2) have b: "inv_basic evs s" using reach_basic by blast
  from assms(1,2) have i: "inv_items env (sum_list (map yield ts)) evs s" using reach_tree by blast
  note f = final_facts [OF b assms(3)]
  from f(5) have "sum_list (map (w_items env) (pool s)) = {#}" by (rule all_exited)
  with i assms(3) have
    "image_mset FileSize (mset (sends evs)) + image_mset ErrLine (mset (stderr s))
     = image_mset FileSize (mset (concat (map files ts)))
       + image_mset ErrLine (mset (map errline (concat (map failures ts))))"
    by (simp add: inv_items_def sum_list_yield)
  then have sp: "mset (sends evs) = mset (concat (map files ts)) \<and> mset (stderr s) = mset (map errline (concat (map failures ts)))"
    by (rule split_items)
  then show m: "mset (sends evs) = mset (concat (map files ts))"
    and "mset (stderr s) = mset (map errline (concat (map failures ts)))" by simp_all
  from b f(1) show r: "recvs evs = sends evs" by (simp add: inv_basic_def inv_chan_def)
  from m have "length (sends evs) = length (concat (map files ts))"
    by (rule mset_eq_length)
  with b r show "nfiles s = of_nat (length (concat (map files ts)))"
    by (simp add: inv_basic_def inv_chan_def)
  from m have "sum_mset (mset (sends evs)) = sum_mset (mset (concat (map files ts)))" by simp
  then have "sum_list (sends evs) = sum_list (concat (map files ts))"
    by (simp only: sum_mset_sum_list)
  with b r show "nbytes s = sum_list (concat (map files ts))"
    by (simp add: inv_basic_def inv_chan_def)
qed

subsection \<open>Arithmetic of the reporters\<close>

lemma sdiv_in_range:
  fixes a b :: int64
  assumes "b \<noteq> 0" "sint a \<noteq> - (2 ^ 63) \<or> b \<noteq> - 1"
  shows "- (2 ^ 63) \<le> sint a sdiv sint b \<and> sint a sdiv sint b < 2 ^ 63"
proof -
  have ra: "- (2 ^ 63) \<le> sint a" "sint a < 2 ^ 63"
    using sint_ge [of a] sint_lt [of a] by simp_all
  have nz: "sint b \<noteq> 0" using assms(1) by (simp add: signed_eq_0_iff)
  have nn: "0 \<le> \<bar>sint a\<bar> div \<bar>sint b\<bar>"
    using nz by (simp add: pos_imp_zdiv_nonneg_iff)
  have q: "\<bar>sint a sdiv sint b\<bar> = \<bar>sint a\<bar> div \<bar>sint b\<bar>"
    using nz nn by (cases "sint a = 0") (simp_all add: signed_divide_int_def abs_mult abs_sgn_eq)
  have "\<bar>sint a\<bar> div \<bar>sint b\<bar> \<le> \<bar>sint a\<bar> div 1"
    by (rule zdiv_mono2) (use nz in auto)
  then have le: "\<bar>sint a\<bar> div \<bar>sint b\<bar> \<le> \<bar>sint a\<bar>" by simp
  show ?thesis
  proof (cases "sint a = - (2 ^ 63)")
    case False
    with ra have "\<bar>sint a\<bar> < 2 ^ 63" by simp
    with q le show ?thesis by linarith
  next
    case True
    with assms(2) have "b \<noteq> - 1" by simp
    have b1: "sint b \<noteq> - 1"
    proof
      assume "sint b = - 1"
      then have "(word_of_int (sint b) :: int64) = word_of_int (- 1)" by (rule arg_cong)
      then have "b = - 1" by simp
      with \<open>b \<noteq> - 1\<close> show False by simp
    qed
    show ?thesis
    proof (cases "sint b = 1")
      case True
      with \<open>sint a = - (2 ^ 63)\<close> show ?thesis by simp
    next
      case False
      with b1 nz have "2 \<le> \<bar>sint b\<bar>" by linarith
      then have "\<bar>sint a\<bar> div \<bar>sint b\<bar> \<le> \<bar>sint a\<bar> div 2"
        by (intro zdiv_mono2) auto
      also from True have "\<bar>sint a\<bar> div 2 = 2 ^ 62" by simp
      finally have "\<bar>sint a sdiv sint b\<bar> \<le> 2 ^ 62" using q by simp
      then show ?thesis by (simp add: abs_le_iff)
    qed
  qed
qed

lemma sint_word_of_int_range:
  "- (2 ^ 63) \<le> k \<Longrightarrow> k < 2 ^ 63 \<Longrightarrow> sint (word_of_int k :: int64) = k"
  by (simp add: signed_of_int signed_take_bit_int_eq_self)

subsection \<open>Prefixes of a run\<close>

lemma exec_length: "exec env s acts = Some (evs, s') \<Longrightarrow> length evs = length acts"
  by (induction acts arbitrary: s evs) (auto split: outcome.splits option.splits)

lemma exec_take:
  assumes "exec env s acts = Some (evs, s')"
  shows "\<exists>sk. exec env s (take k acts) = Some (take k evs, sk)"
proof -
  have "exec env s (take k acts @ drop k acts) =
     (case exec env s (take k acts) of None \<Rightarrow> None
      | Some (evs, s') \<Rightarrow> (case exec env s' (drop k acts) of None \<Rightarrow> None
                           | Some (evs', s'') \<Rightarrow> Some (evs @ evs', s'')))"
    by (rule exec_append)
  with assms obtain e1 sk e2 where 1: "exec env s (take k acts) = Some (e1, sk)"
    and 2: "exec env sk (drop k acts) = Some (e2, s')" and 3: "evs = e1 @ e2"
    by (auto simp only: append_take_drop_id split: option.splits prod.splits)
  from 1 have "length e1 = length (take k acts)" by (rule exec_length)
  moreover from 2 have "length e2 = length (drop k acts)" by (rule exec_length)
  ultimately have "take k evs = e1" using 3 by (cases "k \<le> length acts") auto
  with 1 show ?thesis by blast
qed

lemma exec_nth:
  assumes "exec env s acts = Some (evs, s')" "k < length acts"
  shows "\<exists>sk sk'. exec env s (take k acts) = Some (take k evs, sk)
           \<and> step env sk (acts ! k) = Next (evs ! k) sk'"
proof -
  from assms(1) have len: "length evs = length acts" by (rule exec_length)
  from assms(1) obtain sk' where "exec env s (take (Suc k) acts) = Some (take (Suc k) evs, sk')"
    using exec_take by blast
  with assms(2) have "exec env s (take k acts @ [acts ! k]) = Some (take (Suc k) evs, sk')"
    by (simp add: take_Suc_conv_app_nth)
  then obtain e0 sk ev where 1: "exec env s (take k acts) = Some (e0, sk)"
    and 2: "step env sk (acts ! k) = Next ev sk'" and 3: "take (Suc k) evs = e0 @ [ev]"
    by (auto simp: exec_snoc)
  from 3 assms(2) len have "take k evs @ [evs ! k] = e0 @ [ev]"
    by (simp add: take_Suc_conv_app_nth)
  then have "e0 = take k evs" "ev = evs ! k" by simp_all
  with 1 2 show ?thesis by blast
qed

subsection \<open>After the close\<close>

lemma quiet_when_closed:
  assumes "step env s a = Next ev s'" "inv_wg s" "inv_ctl s" "closer s = C_exit"
  shows "\<not> is_send ev \<and> ev \<noteq> EvAdd \<and> \<not> is_go ev \<and> ev \<noteq> EvClose"
  using assms
  by (cases rule: step_cases) (auto simp: inv_wg_def inv_ctl_def is_send_def is_go_def)

lemma close_step:
  assumes "step env s a = Next EvClose s'"
  shows "closer s = C_close"
  using assms by (cases rule: step_cases) auto

lemma count_list_pos_member: "0 < count_list xs x \<Longrightarrow> x \<in> set xs"
  by (induction xs) (auto split: if_splits)

lemma member_count_list_pos: "x \<in> set xs \<Longrightarrow> 0 < count_list xs x"
  by (induction xs) auto

lemma all_exited_counts:
  assumes "sum_list (map wgc ws) = 0"
  shows "sum_list (map reading ws) = 0" "sum_list (map read_done ws) = 0" "sum_list (map goc ws) = 0"
proof -
  from assms have "\<forall>w\<in>set ws. w = W_exit" by (blast intro: wgc_zero)
  then show "sum_list (map reading ws) = 0" "sum_list (map read_done ws) = 0" "sum_list (map goc ws) = 0"
    by (induction ws) auto
qed

subsection \<open>The final report\<close>

lemma printDiskUsage_eq:
  "printDiskUsage nf nb st now =
     Some (''\<newline>Done!\<newline>Files: '' @ dec (sint nf) @ '', Size: '' @ fmtGB nb
           @ ''GB, Avg FPS: ''
           @ dec (sint (word_of_int (sint nf sdiv sint (if now - st = 0 then 1 else now - st)) :: int64))
           @ '', Elapsed: '' @ dec (sint (if now - st = 0 then 1 else now - st))
           @ '' seconds\<newline>'')"
  by (simp add: printDiskUsage_def div64_def Let_def)

lemma final_report:
  assumes "exec env (init env cl t0) acts = Some (evs, s)"
  shows "mainpc s = M_exit \<longrightarrow>
         (\<exists>now. acts \<noteq> [] \<and> last acts = AMain now \<and> stdout s \<noteq> []
           \<and> printDiskUsage (nfiles s) (nbytes s) t0 now = Some (last (stdout s)))"
  using assms
proof (induction rule: exec_induct)
  case init
  then show ?case by simp
next
  case (step acts evs s a ev s')
  from \<open>exec env (init env cl t0) acts = Some (evs, s)\<close> have st: "start s = t0"
    using reach_basic by blast
  from \<open>step env s a = Next ev s'\<close> st show ?case
    by (cases rule: step_cases) auto
qed

subsection \<open>The number of threads\<close>

lemma step_threads:
  "step env (s\<lparr>tFlag := t\<rparr>) a =
     (case step env s a of
        Blocked \<Rightarrow> Blocked
      | Panic msg \<Rightarrow> Panic msg
      | Next ev s' \<Rightarrow> Next ev (s'\<lparr>tFlag := t\<rparr>))"
proof (cases a)
  case (AMain now)
  then show ?thesis
    by (auto simp: step_def main_step_def split: mpc.splits list.splits option.splits)
next
  case (ATick now)
  then show ?thesis
    by (auto simp: step_def tick_step_def NumGoroutine_def split: option.splits)
next
  case ACloser
  then show ?thesis
    by (auto simp: step_def closer_step_def split: cpc.splits)
next
  case (AWalker i)
  then show ?thesis
    by (auto simp: step_def walker_step_def split: wpc.splits list.splits sum.splits)
qed

lemma exec_threads:
  "exec env (s\<lparr>tFlag := t\<rparr>) acts =
     map_option (\<lambda>(evs, s'). (evs, s'\<lparr>tFlag := t\<rparr>)) (exec env s acts)"
  by (induction acts arbitrary: s) (auto simp: step_threads split: outcome.splits option.splits)

lemma init_threads:
  "init env (cl\<lparr>opt_t := k\<rparr>) t0 =
     (init env cl t0)\<lparr>tFlag := (case k of None \<Rightarrow> NumCPU env | Some j \<Rightarrow> j)\<rparr>"
  by (simp add: init_def Let_def)

subsection \<open>The runs on the small filesystem\<close>

lemmas fmtGB_defs = fmtGB_def gb_tenths_def tenths_def fdiv_1e9_def places_def float64_def
  round_even_def bits.simps digits.simps

lemma fmtGB_demo:
  "fmtGB 0 = ''0.0''" "fmtGB 5 = ''0.0''" "fmtGB 12 = ''0.0''" "fmtGB 17 = ''0.0''"
  "fmtGB 24 = ''0.0''" "fmtGB 9223372036854775808 = ''-9223372036.9''"
  "fmtGB 18446744073709551616 = ''0.0''"
  by (simp_all add: fmtGB_defs)

lemmas demo_defs = demo_env_def demo_cl_def init_def roots_of_def
  step_def main_step_def closer_step_def walker_step_def tick_step_def
  printDiskUsage_def div64_def dec_def digits.simps Let_def signed_divide_int_def fmtGB_demo

lemma exec_run_r:
  "exec demo_env (init demo_env (demo_cl [''r'']) 7) run_r = Some (events_r, final_r)"
  by (simp add: run_r_def events_r_def final_r_def demo_defs)

lemma exec_run_q:
  "exec demo_env (init demo_env (demo_cl [''q'']) 1) run_q = Some (events_q, final_q)"
  by (simp add: run_q_def events_q_def final_q_def demo_defs)

lemma exec_run_q2:
  "exec demo_env (init demo_env (demo_cl [''q'']) 1) run_q' = Some (events_q', final_q')"
  by (simp add: run_q'_def events_q'_def final_q'_def demo_defs)

lemma exec_run_qr:
  "exec demo_env (init demo_env (demo_cl [''q'', ''r'']) 2) run_qr = Some (events_qr, final_qr)"
  by (simp add: run_qr_def events_qr_def final_qr_def demo_defs)

lemma exec_run_qq:
  "exec demo_env (init demo_env (demo_cl [''q'', ''q'']) 2) run_qq = Some (events_qq, final_qq)"
  by (simp add: run_qq_def events_qq_def final_qq_def demo_defs)

lemma exec_run_big:
  "exec demo_env (init demo_env (demo_cl [''big'']) 0) run_big = Some (events_big, final_big)"
  by (simp add: run_big_def events_big_def final_big_def demo_defs)

lemma exec_run_x:
  "exec demo_env (init demo_env (demo_cl [''x'']) 0) run_x = Some (events_x, final_x)"
  by (simp add: run_x_def events_x_def final_x_def demo_defs)

lemma exec_run_two:
  "exec demo_env (init demo_env ((demo_cl [''q'', ''r''])\<lparr>opt_t := Some 1\<rparr>) 0) run_two
     = Some (events_two, final_two)"
  by (simp add: run_two_def events_two_def final_two_def demo_defs)

lemma exec_run_d:
  "exec demo_env (init demo_env (demo_cl [''r'']) 7) run_d = Some (events_d, final_d)"
  by (simp add: run_d_def events_d_def final_d_def demo_defs)

lemma exec_run_one:
  "exec demo_env (init demo_env (demo_cl [''q'']) 1) run_one = Some (events_one, final_one)"
  by (simp add: run_one_def events_one_def final_one_def demo_defs)

lemma agrees_demo:
  "list_all2 (agrees demo_env) (roots_of (demo_cl [''r''])) [tree_r]"
  "list_all2 (agrees demo_env) (roots_of (demo_cl [''q''])) [tree_q]"
  "list_all2 (agrees demo_env) (roots_of (demo_cl [''big''])) [tree_big]"
  "list_all2 (agrees demo_env) (roots_of (demo_cl [''x''])) [Unreadable ''open x: no such file or directory'']"
  "list_all2 (agrees demo_env) (roots_of (demo_cl [''q'', ''r''])) [tree_q, tree_r]"
  "list_all2 (agrees demo_env) (roots_of (demo_cl [''q'', ''q''])) [tree_q, tree_q]"
  by (simp_all add: demo_env_def demo_cl_def roots_of_def tree_r_def tree_q_def tree_big_def)

subsection \<open>Parts of the invariants, and single walkers\<close>

lemma inv_basic_gate:
  assumes "inv_basic evs s"
  shows "sema s = sum_list (map holds (pool s)) \<and> sema s \<le> 256
     \<and> count_list evs EvAcquire = count_list evs EvRelease + sema s
     \<and> length (filter is_read evs) + sum_list (map reading (pool s)) = count_list evs EvAcquire
     \<and> count_list evs EvRelease + sum_list (map read_done (pool s)) = length (filter is_read evs)"
  using assms unfolding inv_basic_def inv_sema_def inv_trace_def by blast

lemma inv_basic_wg:
  assumes "inv_basic evs s"
  shows "wg s = int (sum_list (map wgc (pool s))) + int (m_wgc (mainpc s))"
    and "int (count_list evs EvAdd) = int (count_list evs EvDone) + wg s"
    and "length (filter is_go evs) + sum_list (map goc (pool s)) + m_wgc (mainpc s) = count_list evs EvAdd"
    and "count_list evs EvWait = (if closer s = C_close \<or> closer s = C_exit then 1 else 0)"
    and "count_list evs EvClose = (if closer s = C_exit then 1 else 0)"
    and "closer s = C_close \<or> closer s = C_exit \<longrightarrow> wg s = 0"
    and "inv_wg s" and "inv_ctl s"
  using assms unfolding inv_basic_def inv_wg_def inv_trace_def inv_ctl_def by blast+

lemma holds_member_le: "w \<in> set ws \<Longrightarrow> holds w \<le> sum_list (map holds ws)"
  by (induction ws) auto

lemma live_walker:
  assumes "inv_basic evs s" "i < length (pool s)" "pool s ! i \<noteq> W_exit"
  shows "mainpc s \<noteq> M_exit" "1 \<le> wg s"
proof -
  from assms(2) have m: "pool s ! i \<in> set (pool s)" by simp
  then have "wgc (pool s ! i) \<le> sum_list (map wgc (pool s))" by (rule wgc_member_le)
  moreover from assms(3) have "1 \<le> wgc (pool s ! i)" by (cases "pool s ! i") auto
  ultimately have p: "1 \<le> sum_list (map wgc (pool s))" by linarith
  with inv_basic_wg(1) [OF assms(1)] show "1 \<le> wg s" by linarith
  show "mainpc s \<noteq> M_exit"
  proof
    assume "mainpc s = M_exit"
    from final_facts(5) [OF assms(1) this] p show False by linarith
  qed
qed

lemma holding_walker:
  assumes "inv_basic evs s" "i < length (pool s)" "holds (pool s ! i) = 1"
  shows "sema s \<noteq> 0"
proof -
  from assms(2) have "pool s ! i \<in> set (pool s)" by simp
  then have "holds (pool s ! i) \<le> sum_list (map holds (pool s))" by (rule holds_member_le)
  with assms(3) inv_basic_gate [OF assms(1)] show ?thesis by linarith
qed

lemma failed_read_path:
  assumes "inv_basic evs s" "i < length (pool s)" "pool s ! i = W_readdir d"
    and "ReadDir env d = Inl err"
  shows "exec env s [AWalker i, AWalker i, AWalker i, AWalker i] =
     Some ([EvRead d, EvStderr (''du: '' @ err @ ''\<newline>''), EvRelease, EvDone],
           s\<lparr>stderr := stderr s @ [''du: '' @ err @ ''\<newline>''], sema := sema s - 1,
              wg := wg s - 1, pool := (pool s)[i := W_exit]\<rparr>)"
proof -
  from assms have ne: "mainpc s \<noteq> M_exit" and w: "1 \<le> wg s"
    using live_walker [of evs s i] by auto
  from assms have se: "sema s \<noteq> 0" using holding_walker [of evs s i] by auto
  from w have w': "\<not> wg s - 1 < 0" by linarith
  show ?thesis
    using assms(2,3,4) ne se w'
    by (simp add: step_def walker_step_def)
qed

lemma good_read_path:
  assumes "inv_basic evs s" "i < length (pool s)" "pool s ! i = W_readdir d"
    and "ReadDir env d = Inr es"
  shows "exec env s [AWalker i, AWalker i] =
     Some ([EvRead d, EvRelease], s\<lparr>sema := sema s - 1, pool := (pool s)[i := W_range d es]\<rparr>)"
proof -
  from assms have ne: "mainpc s \<noteq> M_exit"
    using live_walker [of evs s i] by auto
  from assms have se: "sema s \<noteq> 0" using holding_walker [of evs s i] by auto
  show ?thesis
    using assms(2,3,4) ne se
    by (simp add: step_def walker_step_def)
qed

lemma inv_basic_progress:
  assumes "inv_basic evs s" "mainpc s \<noteq> M_exit"
  shows "\<exists>a ev s'. \<not> is_tick a \<and> step env s a = Next ev s'"
  using assms progress [of s env] unfolding inv_basic_def by blast

subsection \<open>Totals as integers\<close>

lemma sint_of_nat_range: "int k < 2 ^ 63 \<Longrightarrow> sint (of_nat k :: int64) = int k"
proof -
  assume a: "int k < 2 ^ 63"
  have "(of_nat k :: int64) = word_of_int (int k)" by simp
  moreover have "sint (word_of_int (int k) :: int64) = int k"
    using a by (intro sint_word_of_int_range) auto
  ultimately show ?thesis by simp
qed

lemma sum_list_word_of_int: "(sum_list xs :: int64) = word_of_int (sum_list (map sint xs))"
  by (induction xs) simp_all

lemma sint_sum_list_range:
  "- (2 ^ 63) \<le> sum_list (map sint xs) \<Longrightarrow> sum_list (map sint xs) < 2 ^ 63 \<Longrightarrow>
   sint (sum_list xs :: int64) = sum_list (map sint xs)"
  by (subst sum_list_word_of_int) (rule sint_word_of_int_range)

lemma inv_basic_no_panic:
  assumes "inv_basic evs s"
  shows "step env s a \<noteq> Panic msg"
  using assms no_panic [of s env a msg] unfolding inv_basic_def by blast

subsection \<open>Several roots\<close>

lemma roots_of_single [simp]: "roots_of (cl\<lparr>positional := [r]\<rparr>) = [r]"
  by (simp add: roots_of_def)

lemma single_runs_sum:
  assumes "list_all2 (agrees env) rs ts"
    and "list_all2 (\<lambda>r (t1, acts1, evs1, s1).
           exec env (init env (cl\<lparr>positional := [r]\<rparr>) t1) acts1 = Some (evs1, s1)
           \<and> mainpc s1 = M_exit) rs runs"
  shows "sum_list (map (\<lambda>(t1, acts1, evs1, s1). nfiles s1) runs) = of_nat (length (concat (map files ts)))
     \<and> sum_list (map (\<lambda>(t1, acts1, evs1, s1). nbytes s1) runs) = sum_list (concat (map files ts))"
  using assms
proof (induction rs arbitrary: ts runs)
  case Nil
  then show ?case by simp
next
  case (Cons r rs)
  from Cons.prems(1) obtain t ts' where ts: "ts = t # ts'" "agrees env r t" "list_all2 (agrees env) rs ts'"
    by (auto simp: list_all2_Cons1)
  from Cons.prems(2) obtain t1 acts1 evs1 s1 runs' where runs: "runs = (t1, acts1, evs1, s1) # runs'"
    and e: "exec env (init env (cl\<lparr>positional := [r]\<rparr>) t1) acts1 = Some (evs1, s1)"
    and f: "mainpc s1 = M_exit"
    and rest: "list_all2 (\<lambda>r (t1, acts1, evs1, s1).
           exec env (init env (cl\<lparr>positional := [r]\<rparr>) t1) acts1 = Some (evs1, s1)
           \<and> mainpc s1 = M_exit) rs runs'"
    by (auto simp: list_all2_Cons1)
  from ts(2) have "list_all2 (agrees env) (roots_of (cl\<lparr>positional := [r]\<rparr>)) [t]" by simp
  note ft = final_totals [OF this e f]
  from Cons.IH [OF ts(3) rest] ft(4,5) show ?case
    by (simp add: ts runs)
qed

lemma replicate_trees:
  "list_all2 (agrees env) (replicate k r) ts \<Longrightarrow> agrees env r t \<Longrightarrow> ts = replicate k t"
  by (induction k arbitrary: ts) (auto simp: list_all2_Cons1 dest: agrees_unique)

lemma concat_replicate_facts:
  "mset (concat (replicate k xs)) = repeat_mset k (mset xs)"
  "length (concat (replicate k xs)) = k * length xs"
  "sum_list (concat (replicate k xs)) = of_nat k * (sum_list xs :: int64)"
  by (induction k) (simp_all add: algebra_simps)

subsection \<open>Lines of the report\<close>

lemma digits_chars: "set (digits k) \<subseteq> set ''0123456789''"
proof (induction k rule: digits.induct)
  case (1 k)
  have m: "''0123456789'' ! j \<in> set ''0123456789''" if "j < 10" for j
    using that by (intro nth_mem) simp
  show ?case
  proof (cases "k < 10")
    case True
    then have "digits k = [''0123456789'' ! k]" by (subst digits.simps) simp
    with m [OF True] show ?thesis by simp
  next
    case False
    then have "digits k = digits (k div 10) @ [''0123456789'' ! (k mod 10)]"
      by (subst digits.simps) simp
    moreover have "''0123456789'' ! (k mod 10) \<in> set ''0123456789''" by (rule m) simp
    ultimately show ?thesis using 1 False by simp
  qed
qed

lemma count_lines_dec [simp]: "count_lines (dec i) = 0"
proof -
  have "CHR ''\<newline>'' \<notin> set (digits k)" for k
    using digits_chars [of k] by auto
  then show ?thesis by (auto simp: count_lines_def dec_def filter_empty_conv)
qed

lemma count_lines_append [simp]: "count_lines (xs @ ys) = count_lines xs + count_lines ys"
  by (simp add: count_lines_def)

lemma count_lines_report:
  "count_lines (''\<newline>Done!\<newline>Files: '' @ dec a @ '', Size: '' @ g
           @ ''GB, Avg FPS: '' @ dec b @ '', Elapsed: '' @ dec c @ '' seconds\<newline>'')
   = 3 + count_lines g"
  by (simp only: count_lines_append count_lines_dec) (simp add: count_lines_def)

subsection \<open>The size in the reports\<close>

lemma round_even_cases:
  assumes "0 < q"
  obtains (down) r where "0 \<le> r" "2 * r \<le> q" "round_even p q * q = p - r"
        | (up) r where "0 \<le> r" "2 * r \<le> q" "round_even p q * q = p + r"
proof -
  define m where "m = p div q"
  define r where "r = p mod q"
  have d: "p = m * q + r" unfolding m_def r_def by simp
  have r0: "0 \<le> r" and rq: "r < q" using assms unfolding r_def by simp_all
  have re: "round_even p q = (if q < 2 * r \<or> (2 * r = q \<and> odd m) then m + 1 else m)"
    unfolding round_even_def m_def r_def ..
  show thesis
  proof (cases "q < 2 * r \<or> (2 * r = q \<and> odd m)")
    case True
    then have "round_even p q = m + 1" using re by simp
    then have 1: "round_even p q * q = p + (q - r)" using d by (simp add: algebra_simps)
    from True have "q \<le> 2 * r" by auto
    then have 2: "2 * (q - r) \<le> q" by simp
    from rq have 3: "0 \<le> q - r" by simp
    from 3 2 1 show thesis by (rule up)
  next
    case False
    then have "round_even p q = m" using re by simp
    then have "round_even p q * q = p - r" using d by simp
    moreover from False have "2 * r \<le> q" by linarith
    ultimately show thesis using r0 by (intro down)
  qed
qed

lemma round_even_err:
  assumes "0 < q"
  shows "2 * \<bar>round_even p q * q - p\<bar> \<le> q"
proof (rule round_even_cases [OF assms, of p])
  fix r :: int
  assume "0 \<le> r" "2 * r \<le> q" "round_even p q * q = p - r"
  then show ?thesis by simp
next
  fix r :: int
  assume "0 \<le> r" "2 * r \<le> q" "round_even p q * q = p + r"
  then show ?thesis by simp
qed

lemma round_even_nonneg:
  assumes "0 < q" "0 \<le> p"
  shows "0 \<le> round_even p q"
proof -
  from assms have "0 \<le> p div q" by (simp add: pos_imp_zdiv_nonneg_iff)
  then show ?thesis unfolding round_even_def by simp
qed

lemma bits_le: "n < 2 ^ k \<Longrightarrow> bits n \<le> k"
proof (induction k arbitrary: n)
  case 0
  then show ?case by (simp add: bits.simps)
next
  case (Suc k)
  show ?case
  proof (cases "n = 0")
    case True
    then show ?thesis by (simp add: bits.simps)
  next
    case False
    from Suc.prems have "n div 2 < 2 ^ k" by simp
    then have "bits (n div 2) \<le> k" by (rule Suc.IH)
    with False show ?thesis by (subst bits.simps) simp
  qed
qed

lemma float64_facts:
  assumes "0 \<le> a" "a \<le> 2 ^ 63"
  shows "0 \<le> float64 a" "\<bar>float64 a - a\<bar> \<le> 1024" "float64 a < 2 ^ 64"
proof -
  define k where "k = bits (nat \<bar>a\<bar>) - 53"
  define q :: int where "q = 2 ^ k"
  have f: "float64 a = round_even a q * q" unfolding float64_def k_def q_def ..
  have "nat \<bar>a\<bar> < 2 ^ 64" using assms by (simp add: nat_less_iff)
  then have "bits (nat \<bar>a\<bar>) \<le> 64" by (rule bits_le)
  then have "k \<le> 11" unfolding k_def by simp
  then have "(2::int) ^ k \<le> 2 ^ 11" by (intro power_increasing) simp_all
  then have q: "0 < q" "q \<le> 2048" unfolding q_def by simp_all
  from q(1) assms(1) have "0 \<le> round_even a q" by (rule round_even_nonneg)
  with q(1) show "0 \<le> float64 a" unfolding f by simp
  define e where "e = round_even a q * q - a"
  from round_even_err [OF q(1), of a] have "2 * \<bar>e\<bar> \<le> q" unfolding e_def .
  with q(2) have "\<bar>e\<bar> \<le> 1024" by simp
  then show e: "\<bar>float64 a - a\<bar> \<le> 1024" unfolding f e_def .
  with assms(2) show "float64 a < 2 ^ 64" by simp
qed

lemma places_ge:
  assumes "0 \<le> x" "x < 2 ^ 64"
  shows "18 \<le> places x"
proof -
  have "nat x < 2 ^ 64" using assms by (simp add: nat_less_iff)
  then have "bits (nat x) \<le> 64" by (rule bits_le)
  then have "18 \<le> 82 - bits (nat x)" "18 \<le> 83 - bits (nat x)" by simp_all
  then show ?thesis unfolding places_def by simp
qed

lemma tenths_close:
  assumes "0 \<le> x" "x < 2 ^ 64"
  shows "2 * \<bar>tenths (fdiv_1e9 x) * 10 ^ 8 - x\<bar> \<le> 10 ^ 8 + 3814"
    and "0 \<le> tenths (fdiv_1e9 x)"
proof -
  define s where "s = places x"
  define P :: int where "P = 2 ^ s"
  define m where "m = round_even (x * P) (10 ^ 9)"
  define t where "t = round_even (10 * m) P"
  have tt: "tenths (fdiv_1e9 x) = t"
    unfolding tenths_def fdiv_1e9_def t_def m_def P_def s_def by simp
  have "18 \<le> s" unfolding s_def using assms by (rule places_ge)
  then have "(2::int) ^ 18 \<le> 2 ^ s" by (intro power_increasing) simp_all
  then have P: "262144 \<le> P" unfolding P_def by simp
  then have P0: "0 < P" by simp
  have 1: "2 * \<bar>m * 10 ^ 9 - x * P\<bar> \<le> 10 ^ 9"
    unfolding m_def by (rule round_even_err) simp
  have 2: "2 * \<bar>t * P - 10 * m\<bar> \<le> P"
    unfolding t_def using P0 by (rule round_even_err)
  have m0: "0 \<le> m" unfolding m_def using assms(1) P0 by (intro round_even_nonneg) simp_all
  then show "0 \<le> tenths (fdiv_1e9 x)"
    unfolding tt t_def using P0 by (intro round_even_nonneg) simp_all
  define X where "X = t * 10 ^ 8 - x"
  define A where "A = t * P - 10 * m"
  define B where "B = m * 10 ^ 9 - x * P"
  have "X * P = A * 10 ^ 8 + B" unfolding X_def A_def B_def by (simp add: algebra_simps)
  then have "\<bar>X * P\<bar> \<le> \<bar>A\<bar> * 10 ^ 8 + \<bar>B\<bar>" by (simp add: abs_mult)
  moreover have "\<bar>X * P\<bar> = \<bar>X\<bar> * P" using P0 by (simp add: abs_mult)
  moreover from 1 have "2 * \<bar>B\<bar> \<le> 10 ^ 9" unfolding B_def .
  moreover from 2 have "2 * \<bar>A\<bar> \<le> P" unfolding A_def .
  ultimately have 3: "2 * (\<bar>X\<bar> * P) \<le> P * 10 ^ 8 + 10 ^ 9"
    by simp
  have "2 * \<bar>X\<bar> \<le> 10 ^ 8 + 3814"
  proof (rule ccontr)
    assume "\<not> 2 * \<bar>X\<bar> \<le> 10 ^ 8 + 3814"
    then have "3815 \<le> 2 * \<bar>X\<bar> - 10 ^ 8" by linarith
    then have "3815 * P \<le> (2 * \<bar>X\<bar> - 10 ^ 8) * P"
      using P0 by (intro mult_right_mono) simp_all
    moreover have "(2 * \<bar>X\<bar> - 10 ^ 8) * P = 2 * (\<bar>X\<bar> * P) - P * 10 ^ 8"
      by (simp add: algebra_simps)
    ultimately have "3815 * P \<le> 2 * (\<bar>X\<bar> * P) - P * 10 ^ 8" by simp
    with 3 have "3815 * P \<le> 10 ^ 9" by simp
    with P show False by simp
  qed
  then show "2 * \<bar>tenths (fdiv_1e9 x) * 10 ^ 8 - x\<bar> \<le> 10 ^ 8 + 3814"
    unfolding tt X_def .
qed

lemma sint_abs_range: "\<bar>sint (n :: int64)\<bar> \<le> 2 ^ 63"
  using sint_ge [of n] sint_lt [of n] by simp

lemma gb_tenths_close:
  "\<bar>gb_tenths n * 10 ^ 8 - \<bar>sint n\<bar>\<bar> \<le> 5 * 10 ^ 7 + 2931" "0 \<le> gb_tenths n"
proof -
  define a where "a = \<bar>sint n\<bar>"
  have a: "0 \<le> a" "a \<le> 2 ^ 63" unfolding a_def using sint_abs_range [of n] by simp_all
  note f = float64_facts [OF a]
  note t = tenths_close [OF f(1) f(3)]
  have g: "gb_tenths n = tenths (fdiv_1e9 (float64 a))" unfolding gb_tenths_def a_def ..
  from t(2) show "0 \<le> gb_tenths n" unfolding g .
  define u where "u = tenths (fdiv_1e9 (float64 a)) * 10 ^ 8"
  define v where "v = float64 a"
  from t(1) have "2 * \<bar>u - v\<bar> \<le> 10 ^ 8 + 3814" unfolding u_def v_def .
  moreover from f(2) have "\<bar>v - a\<bar> \<le> 1024" unfolding v_def .
  ultimately have "\<bar>u - a\<bar> \<le> 5 * 10 ^ 7 + 2931" by simp
  then show "\<bar>gb_tenths n * 10 ^ 8 - \<bar>sint n\<bar>\<bar> \<le> 5 * 10 ^ 7 + 2931"
    unfolding g u_def a_def .
qed

text \<open>
  The conversion is exact below \<open>2^53\<close>, and the quotient has a mantissa of 53 binary
  digits: it is a \<^verbatim>\<open>float64\<close>, the one nearest to the exact quotient.
\<close>

lemma bits_bounds: "n \<noteq> 0 \<Longrightarrow> 2 ^ (bits n - 1) \<le> n \<and> n < 2 ^ bits n"
proof (induction n rule: bits.induct)
  case (1 n)
  from "1.prems" have b: "bits n = Suc (bits (n div 2))" by (subst bits.simps) simp
  show ?case
  proof (cases "n div 2 = 0")
    case True
    with "1.prems" have "n = 1" by (simp add: div_eq_0_iff) 
    then show ?thesis by (simp add: bits.simps)
  next
    case False
    with "1.prems" "1.IH" have ih: "2 ^ (bits (n div 2) - 1) \<le> n div 2" "n div 2 < 2 ^ bits (n div 2)"
      by simp_all
    from False have "bits (n div 2) \<noteq> 0" by (subst bits.simps) simp
    then obtain k where k: "bits (n div 2) = Suc k" by (cases "bits (n div 2)") simp_all
    from ih(1) k have "2 * 2 ^ k \<le> 2 * (n div 2)" by simp
    also have "\<dots> \<le> n" by simp
    finally have lo: "2 ^ (bits n - 1) \<le> n" using b k by simp
    from ih(2) have "n div 2 + 1 \<le> 2 ^ bits (n div 2)" by simp
    then have "2 * (n div 2) + 2 \<le> 2 * 2 ^ bits (n div 2)" by simp
    moreover have "n \<le> 2 * (n div 2) + 1" by simp
    ultimately have "n < 2 ^ bits n" using b by simp
    with lo show ?thesis ..
  qed
qed

lemma fdiv_1e9_mantissa:
  assumes "0 < x" "x < 2 ^ 64"
  shows "2 ^ 52 \<le> fst (fdiv_1e9 x)" "fst (fdiv_1e9 x) \<le> 2 ^ 53"
proof -
  define b where "b = bits (nat x)"
  define D :: int where "D = 10 ^ 9"
  have D: "D = 1000000000" unfolding D_def by simp
  from assms have nz: "nat x \<noteq> 0" by simp
  from bits_bounds [OF nz] have "2 ^ (b - 1) \<le> nat x" "nat x < 2 ^ b" unfolding b_def by simp_all
  then have "int (2 ^ (b - 1)) \<le> int (nat x)" "int (nat x) < int (2 ^ b)" by (simp_all only: of_nat_le_iff of_nat_less_iff)
  with assms(1) have lo: "2 ^ (b - 1) \<le> x" and hi: "x < 2 ^ b" by simp_all
  have "nat x < 2 ^ 64" using assms by (simp add: nat_less_iff)
  then have b64: "b \<le> 64" unfolding b_def by (rule bits_le)
  have b1: "1 \<le> b"
  proof (rule ccontr)
    assume "\<not> 1 \<le> b"
    then have "b = 0" by simp
    with hi assms(1) show False by simp
  qed
  define s where "s = places x"
  define P :: int where "P = 2 ^ s"
  define m where "m = round_even (x * P) D"
  have fm: "fst (fdiv_1e9 x) = m" unfolding fdiv_1e9_def m_def P_def s_def D_def by simp
  have P0: "0 < P" unfolding P_def by simp
  have e: "2 * \<bar>m * D - x * P\<bar> \<le> D" unfolding m_def by (rule round_even_err) (simp add: D)
  have range: "2 ^ 52 * D \<le> x * P \<and> x * P \<le> 2 ^ 53 * D"
  proof (cases "2 ^ 52 * 10 ^ 9 \<le> x * 2 ^ (82 - b)")
    case True
    then have "s = 82 - b" unfolding s_def places_def b_def by simp
    then have P: "P = 2 ^ (82 - b)" unfolding P_def by simp
    from True have 1: "2 ^ 52 * D \<le> x * P" unfolding P D_def by simp
    from hi have "x * 2 ^ (82 - b) < 2 ^ b * 2 ^ (82 - b)" by (intro mult_strict_right_mono) simp_all
    also have "(2::int) ^ b * 2 ^ (82 - b) = 2 ^ 82" using b64 by (simp add: power_add [symmetric])
    finally have "x * P < 2 ^ 82" unfolding P .
    then have "x * P \<le> 2 ^ 53 * D" unfolding D by simp
    with 1 show ?thesis ..
  next
    case False
    then have "s = 83 - b" unfolding s_def places_def b_def by simp
    then have P: "P = 2 ^ (83 - b)" unfolding P_def by simp
    have sp: "(2::int) ^ (83 - b) = 2 * 2 ^ (82 - b)"
    proof -
      from b64 have "83 - b = Suc (82 - b)" by simp
      then show ?thesis by simp
    qed
    from False have "x * 2 ^ (82 - b) < 2 ^ 52 * D" unfolding D_def by simp
    then have 1: "x * P \<le> 2 ^ 53 * D" unfolding P sp by simp
    have "(2::int) ^ 82 = 2 ^ (b - 1) * 2 ^ (83 - b)" using b64 b1 by (simp add: power_add [symmetric])
    also from lo have "\<dots> \<le> x * 2 ^ (83 - b)" by (intro mult_right_mono) simp_all
    finally have "2 ^ 82 \<le> x * P" unfolding P .
    then have "2 ^ 52 * D \<le> x * P" unfolding D by simp
    then show ?thesis using 1 ..
  qed
  define y where "y = x * P"
  define z where "z = m * D"
  from e have ez: "2 * \<bar>z - y\<bar> \<le> D" unfolding y_def z_def .
  from range have ry: "2 ^ 52 * D \<le> y" "y \<le> 2 ^ 53 * D" unfolding y_def by simp_all
  show "2 ^ 52 \<le> fst (fdiv_1e9 x)"
  proof (rule ccontr)
    assume "\<not> 2 ^ 52 \<le> fst (fdiv_1e9 x)"
    then have "m \<le> 2 ^ 52 - 1" unfolding fm by simp
    then have "m * D \<le> (2 ^ 52 - 1) * D" by (intro mult_right_mono) (simp_all add: D)
    then have "z \<le> 2 ^ 52 * D - D" unfolding z_def by (simp add: algebra_simps)
    with ez ry(1) show False unfolding D by simp
  qed
  show "fst (fdiv_1e9 x) \<le> 2 ^ 53"
  proof (rule ccontr)
    assume "\<not> fst (fdiv_1e9 x) \<le> 2 ^ 53"
    then have "2 ^ 53 + 1 \<le> m" unfolding fm by simp
    then have "(2 ^ 53 + 1) * D \<le> m * D" by (intro mult_right_mono) (simp_all add: D)
    then have "2 ^ 53 * D + D \<le> z" unfolding z_def by (simp add: algebra_simps)
    with ez ry(2) show False unfolding D by simp
  qed
qed

lemma float64_exact:
  assumes "\<bar>a\<bar> < 2 ^ 53"
  shows "float64 a = a"
proof -
  from assms have "nat \<bar>a\<bar> < 2 ^ 53" by (simp add: nat_less_iff)
  then have "bits (nat \<bar>a\<bar>) \<le> 53" by (rule bits_le)
  then have "bits (nat \<bar>a\<bar>) - 53 = 0" by simp
  then show ?thesis unfolding float64_def round_even_def by simp
qed

lemma count_lines_digits [simp]: "count_lines (digits k) = 0"
proof -
  have "CHR ''\<newline>'' \<notin> set (digits k)"
    using digits_chars [of k] by auto
  then show ?thesis by (auto simp: count_lines_def filter_empty_conv)
qed

lemma count_lines_fmtGB [simp]: "count_lines (fmtGB n) = 0"
  unfolding fmtGB_def by (simp only: count_lines_append count_lines_digits) (simp add: count_lines_def)

lemma fmtGB_shape:
  "fmtGB n = (if sint n < 0 then ''-'' else []) @ digits (nat (gb_tenths n div 10)) @ ''.''
       @ [''0123456789'' ! nat (gb_tenths n mod 10)]"
proof -
  have "nat (gb_tenths n mod 10) < 10" by (simp add: nat_less_iff)
  then have "digits (nat (gb_tenths n mod 10)) = [''0123456789'' ! nat (gb_tenths n mod 10)]"
    by (subst digits.simps) simp
  then show ?thesis unfolding fmtGB_def by simp
qed

lemma count_lines_final:
  "count_lines (''\<newline>Done!\<newline>Files: '' @ dec a @ '', Size: '' @ fmtGB n
           @ ''GB, Avg FPS: '' @ dec b @ '', Elapsed: '' @ dec c @ '' seconds\<newline>'') = 3"
  by (simp only: count_lines_report count_lines_fmtGB)

subsection \<open>Further parts of the invariants\<close>

lemma inv_basic_out:
  assumes "inv_basic evs s"
  shows "count_list evs EvFinal = (if mainpc s = M_exit then 1 else 0)"
    and "length (stdout s) = count_list evs EvTick + count_list evs EvFinal"
    and "\<not> vFlag s \<longrightarrow> count_list evs EvTick = 0"
  using assms unfolding inv_basic_def inv_trace_def by blast+

lemma acquire_blocked:
  assumes "inv_basic evs s" "i < length (pool s)" "pool s ! i = W_acquire d"
  shows "step env s (AWalker i) = Blocked \<longleftrightarrow> sema s = 256"
proof -
  from assms have ne: "mainpc s \<noteq> M_exit" using live_walker(1) [of evs s i] by simp
  from inv_basic_gate [OF assms(1)] have "sema s \<le> 256" by blast
  with assms(2,3) ne show ?thesis by (auto simp: step_def walker_step_def)
qed

lemma failed_read_release:
  assumes "inv_basic evs s" "i < length (pool s)" "pool s ! i = W_readdir d"
    and "ReadDir env d = Inl err"
  shows "exec env s [AWalker i, AWalker i, AWalker i] =
     Some ([EvRead d, EvStderr (''du: '' @ err @ ''\<newline>''), EvRelease],
           s\<lparr>stderr := stderr s @ [''du: '' @ err @ ''\<newline>''], sema := sema s - 1,
              pool := (pool s)[i := W_range d []]\<rparr>)"
proof -
  from assms have ne: "mainpc s \<noteq> M_exit"
    using live_walker [of evs s i] by auto
  from assms have se: "sema s \<noteq> 0" using holding_walker [of evs s i] by auto
  show ?thesis
    using assms(2,3,4) ne se
    by (simp add: step_def walker_step_def)
qed

lemma acquire_step:
  assumes "inv_basic evs s" "i < length (pool s)" "pool s ! i = W_acquire d" "sema s < 256"
  shows "step env s (AWalker i) =
     Next EvAcquire (s\<lparr>sema := sema s + 1, pool := (pool s)[i := W_readdir d]\<rparr>)"
proof -
  from assms have ne: "mainpc s \<noteq> M_exit" using live_walker(1) [of evs s i] by simp
  with assms(2,3,4) show ?thesis by (simp add: step_def walker_step_def)
qed

lemma closer_steps:
  assumes "inv_basic evs s"
  shows "closer s = C_wait \<longrightarrow>
          step env s ACloser = (if wg s = 0 then Next EvWait (s\<lparr>closer := C_close\<rparr>) else Blocked)"
    and "closer s = C_close \<longrightarrow>
          step env s ACloser = Next EvClose (s\<lparr>closed := True, closer := C_exit\<rparr>)"
    and "closed s \<longleftrightarrow> count_list evs EvClose = 1"
proof -
  from assms have c: "inv_ctl s" and t: "count_list evs EvClose = (if closer s = C_exit then 1 else 0)"
    using inv_basic_wg(5,8) by blast+
  from c show "closer s = C_wait \<longrightarrow>
          step env s ACloser = (if wg s = 0 then Next EvWait (s\<lparr>closer := C_close\<rparr>) else Blocked)"
    by (auto simp: inv_ctl_def step_def closer_step_def)
  from c show "closer s = C_close \<longrightarrow>
          step env s ACloser = Next EvClose (s\<lparr>closed := True, closer := C_exit\<rparr>)"
    by (auto simp: inv_ctl_def step_def closer_step_def)
  from c t show "closed s \<longleftrightarrow> count_list evs EvClose = 1"
    by (auto simp: inv_ctl_def)
qed

subsection \<open>A full gate\<close>

lemma spawn_roots:
  assumes "mainpc s = M_roots (replicate n r @ rest)"
  shows "exec env s (concat (replicate n [AMain x, AMain x])) =
     Some (concat (replicate n [EvAdd, EvGo r]),
           s\<lparr>wg := wg s + int n, mainpc := M_roots rest, pool := pool s @ replicate n (W_acquire r)\<rparr>)"
  using assms
proof (induction n arbitrary: s)
  case 0
  then show ?case by simp
next
  case (Suc n)
  define s2 where "s2 = s\<lparr>wg := wg s + 1, mainpc := M_roots (replicate n r @ rest), pool := pool s @ [W_acquire r]\<rparr>"
  from Suc.prems have two: "exec env s [AMain x, AMain x] = Some ([EvAdd, EvGo r], s2)"
    by (simp add: step_def main_step_def s2_def)
  have "mainpc s2 = M_roots (replicate n r @ rest)" by (simp add: s2_def)
  from Suc.IH [OF this] have rest: "exec env s2 (concat (replicate n [AMain x, AMain x])) =
     Some (concat (replicate n [EvAdd, EvGo r]),
           s2\<lparr>wg := wg s2 + int n, mainpc := M_roots rest, pool := pool s2 @ replicate n (W_acquire r)\<rparr>)" .
  have fin: "s2\<lparr>wg := wg s2 + int n, mainpc := M_roots rest, pool := pool s2 @ replicate n (W_acquire r)\<rparr>
      = s\<lparr>wg := wg s + int (Suc n), mainpc := M_roots rest, pool := pool s @ replicate (Suc n) (W_acquire r)\<rparr>"
    by (simp add: s2_def)
  have "exec env s (concat (replicate (Suc n) [AMain x, AMain x]))
      = exec env s ([AMain x, AMain x] @ concat (replicate n [AMain x, AMain x]))" by simp
  also have "\<dots> = Some ([EvAdd, EvGo r] @ concat (replicate n [EvAdd, EvGo r]),
           s2\<lparr>wg := wg s2 + int n, mainpc := M_roots rest, pool := pool s2 @ replicate n (W_acquire r)\<rparr>)"
    by (simp only: exec_append two rest option.case prod.case)
  finally show ?case by (simp only: fin) simp
qed

lemma acquire_many:
  assumes "pool s = pre @ replicate m (W_acquire r) @ post" "sema s + m \<le> 256" "mainpc s \<noteq> M_exit"
  shows "exec env s (map AWalker [length pre ..< length pre + m]) =
     Some (replicate m EvAcquire,
           s\<lparr>sema := sema s + m, pool := pre @ replicate m (W_readdir r) @ post\<rparr>)"
  using assms
proof (induction m arbitrary: s pre)
  case 0
  then show ?case by simp
next
  case (Suc m)
  define s1 where "s1 = s\<lparr>sema := sema s + 1, pool := (pre @ [W_readdir r]) @ replicate m (W_acquire r) @ post\<rparr>"
  from Suc.prems have one: "step env s (AWalker (length pre)) = Next EvAcquire s1"
    by (simp add: step_def walker_step_def s1_def nth_append list_update_append)
  have "pool s1 = (pre @ [W_readdir r]) @ replicate m (W_acquire r) @ post" "sema s1 + m \<le> 256"
    "mainpc s1 \<noteq> M_exit"
    using Suc.prems by (simp_all add: s1_def)
  from Suc.IH [OF this] have rest: "exec env s1 (map AWalker [Suc (length pre) ..< Suc (length pre) + m]) =
     Some (replicate m EvAcquire,
           s1\<lparr>sema := sema s1 + m, pool := (pre @ [W_readdir r]) @ replicate m (W_readdir r) @ post\<rparr>)"
    by simp
  have fin: "s1\<lparr>sema := sema s1 + m, pool := (pre @ [W_readdir r]) @ replicate m (W_readdir r) @ post\<rparr>
      = s\<lparr>sema := sema s + Suc m, pool := pre @ replicate (Suc m) (W_readdir r) @ post\<rparr>"
    by (simp add: s1_def)
  have "map AWalker [length pre ..< length pre + Suc m]
      = AWalker (length pre) # map AWalker [Suc (length pre) ..< Suc (length pre) + m]"
    by (simp add: upt_conv_Cons)
  then have "exec env s (map AWalker [length pre ..< length pre + Suc m])
      = Some (EvAcquire # replicate m EvAcquire,
           s1\<lparr>sema := sema s1 + m, pool := (pre @ [W_readdir r]) @ replicate m (W_readdir r) @ post\<rparr>)"
    by (simp only: exec.simps one rest outcome.case option.case prod.case)
  then show ?case by (simp only: fin) simp
qed

lemma exec_run_full:
  "exec demo_env (init demo_env (demo_cl (replicate 257 ''q'')) 0) run_full = Some (events_full, final_full)"
proof -
  define s0 where "s0 = init demo_env (demo_cl (replicate 257 ''q'')) 0"
  define s1 where "s1 = s0\<lparr>wg := wg s0 + int 257, mainpc := M_roots [],
      pool := pool s0 @ replicate 257 (W_acquire ''q'')\<rparr>"
  have "mainpc s0 = M_roots (replicate 257 ''q'' @ [])"
    by (simp add: s0_def roots_of_def demo_cl_def)
  then have 1: "exec demo_env s0 (concat (replicate 257 [AMain 0, AMain 0])) =
      Some (concat (replicate 257 [EvAdd, EvGo ''q'']), s1)"
    unfolding s1_def by (rule spawn_roots)
  have "(257 :: nat) = Suc 256" by simp
  then have "replicate 257 (W_acquire ''q'') = replicate (Suc 256) (W_acquire ''q'')" by (rule arg_cong)
  then have "replicate 257 (W_acquire ''q'') = replicate 256 (W_acquire ''q'') @ [W_acquire ''q'']"
    by (simp only: replicate_Suc replicate_append_same)
  then have "pool s1 = [] @ replicate 256 (W_acquire ''q'') @ [W_acquire ''q'']"
    "sema s1 + 256 \<le> 256" "mainpc s1 \<noteq> M_exit"
    by (simp_all add: s1_def s0_def)
  then have "exec demo_env s1 (map AWalker [length ([] :: wpc list) ..< length ([] :: wpc list) + 256]) =
     Some (replicate 256 EvAcquire,
           s1\<lparr>sema := sema s1 + 256, pool := [] @ replicate 256 (W_readdir ''q'') @ [W_acquire ''q'']\<rparr>)"
    by (rule acquire_many)
  moreover have "s1\<lparr>sema := sema s1 + 256, pool := [] @ replicate 256 (W_readdir ''q'') @ [W_acquire ''q'']\<rparr>
      = final_full"
    by (simp add: s1_def s0_def final_full_def init_def demo_env_def demo_cl_def)
  ultimately have 2: "exec demo_env s1 (map AWalker [0 ..< 256]) = Some (replicate 256 EvAcquire, final_full)"
    by simp
  show ?thesis
    unfolding run_full_def events_full_def s0_def [symmetric]
    by (simp only: exec_append 1 2 option.case prod.case)
qed

lemma final_full_facts:
  "256 < length (pool final_full)" "pool final_full ! 256 = W_acquire ''q''" "sema final_full = 256"
  "sum_list (map holds (pool final_full)) = 256"
  by (simp_all add: final_full_def nth_append sum_list_replicate)

subsection \<open>One walker at the gate\<close>

lemma gate_log_snoc:
  "length acts = length evs \<Longrightarrow>
   gate_log i (acts @ [a]) (evs @ [ev]) = gate_log i acts evs @ (if a = AWalker i then gate_of ev else [])"
  by (simp add: gate_log_def)

lemma gate_expect_step:
  assumes "step env s a = Next ev s'"
  shows "gate_expect s' i = gate_expect s i @ (if a = AWalker i then gate_of ev else [])"
  using assms
proof (cases rule: step_cases)
  case (root_go now root rest)
  then show ?thesis by (auto simp: gate_expect_def gate_of_def nth_append)
next
  case (acquire pre post d)
  then show ?thesis by (auto simp: gate_expect_def gate_of_def nth_append nth_Cons')
next
  case (read_err pre post d err)
  then show ?thesis by (auto simp: gate_expect_def gate_of_def nth_append nth_Cons')
next
  case (read_ok pre post d es)
  then show ?thesis by (auto simp: gate_expect_def gate_of_def nth_append nth_Cons')
next
  case (report pre post d err)
  then show ?thesis by (auto simp: gate_expect_def gate_of_def errline_def nth_append nth_Cons')
next
  case (release pre post d es)
  then show ?thesis by (auto simp: gate_expect_def gate_of_def nth_append nth_Cons')
next
  case (wdone pre post d)
  then show ?thesis by (auto simp: gate_expect_def gate_of_def nth_append nth_Cons')
next
  case (add pre post d e es)
  then show ?thesis by (auto simp: gate_expect_def gate_of_def nth_append nth_Cons')
next
  case (send pre post d e es)
  then show ?thesis by (auto simp: gate_expect_def gate_of_def nth_append nth_Cons')
next
  case (go pre post d e es)
  then show ?thesis by (auto simp: gate_expect_def gate_of_def nth_append nth_Cons')
qed (auto simp: gate_expect_def gate_of_def)

lemma pool_step:
  assumes "step env s a = Next ev s'"
  shows "length (pool s') = length (pool s) + (if is_go ev then 1 else 0)"
  using assms by (cases rule: step_cases) (auto simp: is_go_def errline_def)

lemma reach_gate:
  assumes "exec env (init env cl t0) acts = Some (evs, s)"
  shows "gate_log i acts evs = gate_expect s i \<and> length (pool s) = length (filter is_go evs)"
  using assms
proof (induction rule: exec_induct)
  case init
  show ?case by (simp add: gate_log_def gate_expect_def)
next
  case (step acts evs s a ev s')
  note st = \<open>step env s a = Next ev s'\<close>
  from \<open>exec env (init env cl t0) acts = Some (evs, s)\<close> have "length evs = length acts"
    by (rule exec_length)
  then have "gate_log i (acts @ [a]) (evs @ [ev])
      = gate_log i acts evs @ (if a = AWalker i then gate_of ev else [])"
    by (intro gate_log_snoc) simp
  with \<open>gate_log i acts evs = gate_expect s i \<and> length (pool s) = length (filter is_go evs)\<close>
    gate_expect_step [OF st, of i] pool_step [OF st]
  show ?case by simp
qed

lemma all_exited_nth:
  assumes "inv_basic evs s" "mainpc s = M_exit" "i < length (pool s)"
  shows "pool s ! i = W_exit"
proof -
  from assms(1,2) have "sum_list (map wgc (pool s)) = 0" by (rule final_facts(5))
  moreover from assms(3) have "pool s ! i \<in> set (pool s)" by simp
  ultimately show ?thesis by (rule wgc_zero)
qed

subsection \<open>Sums of totals\<close>

lemma exec_run_bb:
  "exec demo_env (init demo_env (demo_cl [''big'', ''big'']) 0) run_bb = Some (events_bb, final_bb)"
  by (simp add: run_bb_def events_bb_def final_bb_def demo_defs)

lemma agrees_demo_bb:
  "list_all2 (agrees demo_env) (roots_of (demo_cl [''big'', ''big''])) [tree_big, tree_big]"
  by (simp add: demo_env_def demo_cl_def roots_of_def tree_big_def)

lemma map_sint_runs:
  "map sint (map (\<lambda>(t1, acts1, evs1, s1). f s1) runs) = map (\<lambda>(t1, acts1, evs1, s1). sint (f s1)) runs"
  by (induction runs) auto

lemma repeated_root_split:
  assumes "list_all2 (agrees env) rs ts" "agrees env r t"
  shows "mset (concat (map files ts))
           = repeat_mset (count_list rs r) (mset (files t)) + mset (concat (map files (other_trees r rs ts)))
     \<and> length (concat (map files ts))
           = count_list rs r * length (files t) + length (concat (map files (other_trees r rs ts)))
     \<and> sum_list (concat (map files ts))
           = of_nat (count_list rs r) * sum_list (files t) + sum_list (concat (map files (other_trees r rs ts)))
     \<and> sum_list (map sint (concat (map files ts)))
           = int (count_list rs r) * sum_list (map sint (files t))
             + sum_list (map sint (concat (map files (other_trees r rs ts))))"
  using assms(1)
proof (induction rule: list_all2_induct)
  case Nil
  then show ?case by (simp add: other_trees_def)
next
  case (Cons r' rs t' ts)
  show ?case
  proof (cases "r' = r")
    case True
    with Cons(1) assms(2) have "t' = t" by (auto dest: agrees_unique)
    with True Cons(3) show ?thesis by (simp add: other_trees_def algebra_simps)
  next
    case False
    with Cons(3) show ?thesis by (simp add: other_trees_def algebra_simps)
  qed
qed

section \<open>The claims\<close>

text \<open>
  C1, as amended. Let the single root have a finite tree below it with no read failing,
  holding \<open>N\<close> entries that are not directories. Then every run is bounded in its steps
  (timer events apart), can always go on until \<^verbatim>\<open>main\<close> has returned, and never panics;
  and when \<^verbatim>\<open>main\<close> returns, \<^verbatim>\<open>nfiles\<close> is \<open>N\<close> and \<^verbatim>\<open>nbytes\<close> is the sum of the \<open>N\<close> sizes
  as \<^verbatim>\<open>int64\<close> values, that is modulo \<open>2^64\<close>: the count is exact when \<open>N < 2^63\<close>, the byte
  total is the exact sum when that sum is an \<^verbatim>\<open>int64\<close>. This holds for every schedule, so
  for every number of threads; the semaphore has its 256 slots in every run.

  The claim as it stands, with the exact sum for every tree, fails: for two files of
  \<open>2^62\<close> bytes (sparse files can be that large) the sum is \<open>2^63\<close> and \<^verbatim>\<open>nbytes\<close> ends as
  \<open>-2^63\<close>.
\<close>

theorem single_root_totals:
  assumes "roots_of cl = [r]" "agrees env r t" "failures t = []"
    and "exec env (init env cl t0) acts = Some (evs, s)"
  shows "length (filter (\<lambda>a. \<not> is_tick a) acts) \<le> steps_bound [t]
     \<and> (mainpc s \<noteq> M_exit \<longrightarrow> (\<exists>a ev s'. \<not> is_tick a \<and> step env s a = Next ev s'))
     \<and> step env s a \<noteq> Panic msg
     \<and> (mainpc s = M_exit \<longrightarrow>
          stderr s = []
          \<and> nfiles s = of_nat (length (files t))
          \<and> nbytes s = sum_list (files t)
          \<and> (int (length (files t)) < 2 ^ 63 \<longrightarrow> sint (nfiles s) = int (length (files t)))
          \<and> (- (2 ^ 63) \<le> sum_list (map sint (files t)) \<and> sum_list (map sint (files t)) < 2 ^ 63 \<longrightarrow>
               sint (nbytes s) = sum_list (map sint (files t))))"
proof -
  from assms(1,2) have ag: "list_all2 (agrees env) (roots_of cl) [t]" by simp
  from assms(4) have b: "inv_basic evs s" using reach_basic by blast
  from ag assms(4) have 1: "length (filter (\<lambda>a. \<not> is_tick a) acts) \<le> steps_bound [t]"
    using reach_tree [of env cl t0 acts evs s "[t]"] by linarith
  have 2: "\<exists>a ev s'. \<not> is_tick a \<and> step env s a = Next ev s'" if "mainpc s \<noteq> M_exit"
    using b that by (rule inv_basic_progress)
  have 3: "step env s a \<noteq> Panic msg"
    using b by (rule inv_basic_no_panic)
  have 4: "stderr s = []
          \<and> nfiles s = of_nat (length (files t))
          \<and> nbytes s = sum_list (files t)
          \<and> (int (length (files t)) < 2 ^ 63 \<longrightarrow> sint (nfiles s) = int (length (files t)))
          \<and> (- (2 ^ 63) \<le> sum_list (map sint (files t)) \<and> sum_list (map sint (files t)) < 2 ^ 63 \<longrightarrow>
               sint (nbytes s) = sum_list (map sint (files t)))" if f: "mainpc s = M_exit"
  proof -
    note ft = final_totals [OF ag assms(4) f]
    from ft(2) assms(3) have e: "stderr s = []" by simp
    from ft(4) have n: "nfiles s = of_nat (length (files t))" by simp
    from ft(5) have m: "nbytes s = sum_list (files t)" by simp
    from n have "sint (nfiles s) = int (length (files t))" if "int (length (files t)) < 2 ^ 63"
      using that by (simp only: sint_of_nat_range)
    moreover from m have "sint (nbytes s) = sum_list (map sint (files t))"
      if "- (2 ^ 63) \<le> sum_list (map sint (files t))" "sum_list (map sint (files t)) < 2 ^ 63"
      using that by (simp only: sint_sum_list_range)
    ultimately show ?thesis using e n m by blast
  qed
  from 1 2 3 4 show ?thesis by blast
qed

theorem single_root_totals_witness:
  "roots_of (demo_cl [''q'']) = [''q''] \<and> agrees demo_env ''q'' tree_q \<and> failures tree_q = []
   \<and> exec demo_env (init demo_env (demo_cl [''q'']) 1) run_q = Some (events_q, final_q)
   \<and> mainpc final_q = M_exit
   \<and> length (files tree_q) = 2 \<and> sum_list (map sint (files tree_q)) = 12
   \<and> sint (nfiles final_q) = 2 \<and> sint (nbytes final_q) = 12
   \<and> length (filter (\<lambda>a. \<not> is_tick a) run_q) = 21 \<and> steps_bound [tree_q] = 21"
proof -
  have r: "roots_of (demo_cl [''q'']) = [''q'']" by (simp add: roots_of_def demo_cl_def)
  have ag: "agrees demo_env ''q'' tree_q" using agrees_demo(2) r by simp
  have fl: "failures tree_q = []" by (simp add: tree_q_def)
  have f: "mainpc final_q = M_exit" by (simp add: final_q_def)
  have v: "length (files tree_q) = 2" "sum_list (map sint (files tree_q)) = 12"
    by (simp_all add: tree_q_def)
  note t = single_root_totals [OF r ag fl exec_run_q, of "AMain 0" "''''"]
  from t f have "(int (length (files tree_q)) < 2 ^ 63 \<longrightarrow> sint (nfiles final_q) = int (length (files tree_q)))
      \<and> (- (2 ^ 63) \<le> sum_list (map sint (files tree_q)) \<and> sum_list (map sint (files tree_q)) < 2 ^ 63 \<longrightarrow>
               sint (nbytes final_q) = sum_list (map sint (files tree_q)))"
    by blast
  with v have 1: "sint (nfiles final_q) = 2" "sint (nbytes final_q) = 12" by simp_all
  have 2: "length (filter (\<lambda>a. \<not> is_tick a) run_q) = 21" "steps_bound [tree_q] = 21"
    by (simp_all add: run_q_def is_tick_def steps_bound_def tree_q_def)
  from r ag fl exec_run_q f v 1 2 show ?thesis by blast
qed

theorem single_root_totals_counterexample:
  "roots_of (demo_cl [''big'']) = [''big''] \<and> agrees demo_env ''big'' tree_big
   \<and> failures tree_big = []
   \<and> exec demo_env (init demo_env (demo_cl [''big'']) 0) run_big = Some (events_big, final_big)
   \<and> mainpc final_big = M_exit
   \<and> map sint (files tree_big) = [4611686018427387904, 4611686018427387904]
   \<and> sum_list (map sint (files tree_big)) = 9223372036854775808
   \<and> sint (nbytes final_big) = - 9223372036854775808"
proof -
  have r: "roots_of (demo_cl [''big'']) = [''big'']" by (simp add: roots_of_def demo_cl_def)
  have ag: "agrees demo_env ''big'' tree_big" using agrees_demo(3) r by simp
  have "failures tree_big = []" "mainpc final_big = M_exit"
    "map sint (files tree_big) = [4611686018427387904, 4611686018427387904]"
    "sum_list (map sint (files tree_big)) = 9223372036854775808"
    "sint (nbytes final_big) = - 9223372036854775808"
    by (simp_all add: tree_big_def final_big_def)
  with r ag exec_run_big show ?thesis by blast
qed

text \<open>
  C2. In every run \<^verbatim>\<open>fileSizes\<close> is closed at most once, and the close does happen:
  while \<^verbatim>\<open>main\<close> has not returned some goroutine can take a step, no step panics, the
  steps of a run (timer events apart) are bounded when the roots have finite trees below
  them, and a run that has reached the end of \<^verbatim>\<open>main\<close> has closed the channel exactly
  once. The closing goroutine passes \<^verbatim>\<open>n.Wait()\<close> exactly when the counter is zero and
  then closes the channel. When the close happens \<^verbatim>\<open>n.Wait()\<close> has returned and the
  WaitGroup counter, the number of \<^verbatim>\<open>Add(1)\<close> minus the number of \<^verbatim>\<open>Done()\<close> so far, is
  zero; after it nothing is sent on the channel, nothing is registered, no goroutine is
  started and the channel is not closed again. In every prefix of the trace there are at
  most as many \<^verbatim>\<open>go walkDir\<close> as \<^verbatim>\<open>Add(1)\<close>: the counter always counts the walkers
  that have not returned, twice those that have registered a child they have not started
  yet, and the root that \<^verbatim>\<open>main\<close> has registered and not started.
\<close>

theorem close_once_after_zero:
  assumes "exec env (init env cl t0) acts = Some (evs, s)"
  shows "count_list evs EvClose \<le> 1
     \<and> (mainpc s = M_exit \<longrightarrow> count_list evs EvClose = 1)
     \<and> (mainpc s \<noteq> M_exit \<longrightarrow> (\<exists>a ev s'. \<not> is_tick a \<and> step env s a = Next ev s'))
     \<and> (list_all2 (agrees env) (roots_of cl) ts \<longrightarrow>
          length (filter (\<lambda>a. \<not> is_tick a) acts) \<le> steps_bound ts)
     \<and> step env s a \<noteq> Panic msg
     \<and> (closer s = C_wait \<longrightarrow>
          step env s ACloser = (if wg s = 0 then Next EvWait (s\<lparr>closer := C_close\<rparr>) else Blocked))
     \<and> (closer s = C_close \<longrightarrow>
          step env s ACloser = Next EvClose (s\<lparr>closed := True, closer := C_exit\<rparr>))
     \<and> (closed s \<longleftrightarrow> count_list evs EvClose = 1)
     \<and> (k < length evs \<and> evs ! k = EvClose \<longrightarrow>
          EvWait \<in> set (take k evs)
          \<and> int (count_list (take k evs) EvAdd) - int (count_list (take k evs) EvDone) = 0
          \<and> (k < j \<and> j < length evs \<longrightarrow>
               \<not> is_send (evs ! j) \<and> evs ! j \<noteq> EvAdd \<and> \<not> is_go (evs ! j) \<and> evs ! j \<noteq> EvClose))
     \<and> length (filter is_go (take k evs)) \<le> count_list (take k evs) EvAdd
     \<and> wg s = int (count_list evs EvAdd) - int (count_list evs EvDone)
     \<and> wg s = int (sum_list (map wgc (pool s))) + int (m_wgc (mainpc s))
     \<and> length (filter is_go evs) + sum_list (map goc (pool s)) + m_wgc (mainpc s) = count_list evs EvAdd"
proof -
  from assms have len: "length evs = length acts" by (rule exec_length)
  from assms have b: "inv_basic evs s" using reach_basic by blast
  note w = inv_basic_wg [OF b]
  from w(5) have 1: "count_list evs EvClose \<le> 1" by (simp split: if_splits)
  have 2: "count_list evs EvClose = 1" if "mainpc s = M_exit"
    using final_facts(3) [OF b that] w(5) by simp
  have 3: "EvWait \<in> set (take k evs)
          \<and> int (count_list (take k evs) EvAdd) - int (count_list (take k evs) EvDone) = 0"
    if k: "k < length evs" "evs ! k = EvClose"
  proof -
    from assms k len obtain sk sk' where e: "exec env (init env cl t0) (take k acts) = Some (take k evs, sk)"
      and st: "step env sk (acts ! k) = Next EvClose sk'"
      using exec_nth [of env "init env cl t0" acts evs s k] by auto
    from e have bk: "inv_basic (take k evs) sk" using reach_basic by blast
    note wk = inv_basic_wg [OF bk]
    from st have c: "closer sk = C_close" by (rule close_step)
    with wk(4) have "0 < count_list (take k evs) EvWait" by simp
    then have "EvWait \<in> set (take k evs)" by (rule count_list_pos_member)
    moreover from c wk(6) have "wg sk = 0" by simp
    with wk(2) have "int (count_list (take k evs) EvAdd) - int (count_list (take k evs) EvDone) = 0"
      by linarith
    ultimately show ?thesis by blast
  qed
  have 4: "\<not> is_send (evs ! j) \<and> evs ! j \<noteq> EvAdd \<and> \<not> is_go (evs ! j) \<and> evs ! j \<noteq> EvClose"
    if k: "k < length evs" "evs ! k = EvClose" and j: "k < j" "j < length evs"
  proof -
    from assms j len obtain sj sj' where e: "exec env (init env cl t0) (take j acts) = Some (take j evs, sj)"
      and st: "step env sj (acts ! j) = Next (evs ! j) sj'"
      using exec_nth [of env "init env cl t0" acts evs s j] by auto
    from e have bj: "inv_basic (take j evs) sj" using reach_basic by blast
    note wj = inv_basic_wg [OF bj]
    from k j have "take j evs ! k = EvClose" by simp
    moreover from k j have "k < length (take j evs)" by simp
    ultimately have "EvClose \<in> set (take j evs)" by (metis nth_mem)
    then have "0 < count_list (take j evs) EvClose" by (rule member_count_list_pos)
    with wj(5) have "closer sj = C_exit" by (simp split: if_splits)
    with st wj(7,8) show ?thesis by (intro quiet_when_closed)
  qed
  have 5: "length (filter is_go (take k evs)) \<le> count_list (take k evs) EvAdd"
  proof -
    from assms obtain sk where "exec env (init env cl t0) (take k acts) = Some (take k evs, sk)"
      using exec_take by blast
    then have "inv_basic (take k evs) sk" using reach_basic by blast
    from inv_basic_wg(3) [OF this] show ?thesis by linarith
  qed
  from w(2) have 6: "wg s = int (count_list evs EvAdd) - int (count_list evs EvDone)" by linarith
  have 7: "\<exists>a ev s'. \<not> is_tick a \<and> step env s a = Next ev s'" if "mainpc s \<noteq> M_exit"
    using b that by (rule inv_basic_progress)
  have 8: "length (filter (\<lambda>a. \<not> is_tick a) acts) \<le> steps_bound ts"
    if "list_all2 (agrees env) (roots_of cl) ts"
    using reach_tree [OF assms that] by linarith
  have 9: "step env s a \<noteq> Panic msg"
    using b by (rule inv_basic_no_panic)
  note c = closer_steps [OF b]
  from 1 2 3 4 5 6 7 8 9 c w(1) w(3) show ?thesis by blast
qed

theorem close_once_after_zero_witness:
  "exec demo_env (init demo_env (demo_cl [''r'']) 7) run_r = Some (events_r, final_r)
   \<and> mainpc final_r = M_exit \<and> count_list events_r EvClose = 1 \<and> events_r ! 17 = EvClose
   \<and> closed final_r
   \<and> list_all2 (agrees demo_env) (roots_of (demo_cl [''r''])) [tree_r]
   \<and> length (filter (\<lambda>a. \<not> is_tick a) run_r) = 20 \<and> steps_bound [tree_r] = 20
   \<and> EvWait \<in> set (take 17 events_r)
   \<and> int (count_list (take 17 events_r) EvAdd) - int (count_list (take 17 events_r) EvDone) = 0
   \<and> \<not> is_send (events_r ! 18)
   \<and> length (filter is_go (take 17 events_r)) = 2 \<and> count_list (take 17 events_r) EvAdd = 2
   \<and> wg final_r = 0
   \<and> exec demo_env (init demo_env (demo_cl [''r'']) 7) run_d = Some (events_d, final_d)
   \<and> closer final_d = C_wait \<and> wg final_d = 2 \<and> step demo_env final_d ACloser = Blocked
   \<and> mainpc final_d = M_loop \<and> (\<exists>a ev s'. \<not> is_tick a \<and> step demo_env final_d a = Next ev s')
   \<and> exec demo_env (init demo_env (demo_cl [''r'']) 7) (take 17 run_r) = Some (take 17 events_r, before_close_r)
   \<and> closer before_close_r = C_close
   \<and> step demo_env before_close_r ACloser =
        Next EvClose (before_close_r\<lparr>closed := True, closer := C_exit\<rparr>)"
proof -
  have e: "exec demo_env (init demo_env (demo_cl [''r'']) 7) (take 17 run_r) = Some (take 17 events_r, before_close_r)"
    by (simp add: run_r_def events_r_def before_close_r_def demo_defs)
  have c: "closer before_close_r = C_close" "closer final_d = C_wait" "wg final_d = 2"
    by (simp_all add: before_close_r_def final_d_def)
  from close_once_after_zero [OF e, of "[tree_r]" ACloser "[]" 0 0] c(1)
  have 1: "step demo_env before_close_r ACloser =
        Next EvClose (before_close_r\<lparr>closed := True, closer := C_exit\<rparr>)" by blast
  from close_once_after_zero [OF exec_run_d, of "[tree_r]" ACloser "[]" 0 0] c(2,3)
  have 2: "step demo_env final_d ACloser = Blocked" by simp
  have m: "mainpc final_d = M_loop" by (simp add: final_d_def)
  then have "mainpc final_d \<noteq> M_exit" by simp
  with close_once_after_zero [OF exec_run_d, of "[tree_r]" ACloser "[]" 0 0]
  have p: "\<exists>a ev s'. \<not> is_tick a \<and> step demo_env final_d a = Next ev s'" by blast
  have 3: "length (filter (\<lambda>a. \<not> is_tick a) run_r) = 20" "steps_bound [tree_r] = 20"
    by (simp_all add: run_r_def is_tick_def steps_bound_def tree_r_def)
  have 4: "mainpc final_r = M_exit \<and> count_list events_r EvClose = 1 \<and> events_r ! 17 = EvClose
   \<and> closed final_r
   \<and> EvWait \<in> set (take 17 events_r)
   \<and> int (count_list (take 17 events_r) EvAdd) - int (count_list (take 17 events_r) EvDone) = 0
   \<and> \<not> is_send (events_r ! 18)
   \<and> length (filter is_go (take 17 events_r)) = 2 \<and> count_list (take 17 events_r) EvAdd = 2
   \<and> wg final_r = 0"
    using close_once_after_zero [OF exec_run_r, of "[tree_r]" ACloser "[]" 17 18]
    by (simp add: events_r_def final_r_def is_send_def is_go_def)
  from exec_run_r exec_run_d agrees_demo(1) e c 1 2 3 4 m p show ?thesis by blast
qed

text \<open>
  C3. A walker whose \<^verbatim>\<open>ioutil.ReadDir\<close> fails writes one line, \<^verbatim>\<open>du: \<close> followed by the
  error, to the standard error, gives its token back, finds no entries and finishes with
  \<^verbatim>\<open>n.Done()\<close>: four steps that are always possible. The run goes on: while \<^verbatim>\<open>main\<close> has
  not returned some goroutine can take a step, and the steps of a run, timer events apart,
  are bounded by the size of the trees. When \<^verbatim>\<open>main\<close> returns, the standard error holds
  one line for every directory whose read failed, and the totals are those of the files
  outside the failed directories. When the only root cannot be read, the run ends with
  that one line and with zero files and zero bytes.
\<close>

theorem failed_reads_are_local:
  assumes "list_all2 (agrees env) (roots_of cl) ts"
    and "exec env (init env cl t0) acts = Some (evs, s)"
  shows "(i < length (pool s) \<and> pool s ! i = W_readdir d \<and> ReadDir env d = Inl err \<longrightarrow>
           exec env s [AWalker i, AWalker i, AWalker i, AWalker i] =
             Some ([EvRead d, EvStderr (''du: '' @ err @ ''\<newline>''), EvRelease, EvDone],
                   s\<lparr>stderr := stderr s @ [''du: '' @ err @ ''\<newline>''], sema := sema s - 1,
                      wg := wg s - 1, pool := (pool s)[i := W_exit]\<rparr>))
     \<and> (mainpc s \<noteq> M_exit \<longrightarrow> (\<exists>a ev s'. \<not> is_tick a \<and> step env s a = Next ev s'))
     \<and> length (filter (\<lambda>a. \<not> is_tick a) acts) \<le> steps_bound ts
     \<and> (mainpc s = M_exit \<longrightarrow>
          mset (stderr s) = mset (map errline (concat (map failures ts)))
          \<and> nfiles s = of_nat (length (concat (map files ts)))
          \<and> nbytes s = sum_list (concat (map files ts)))
     \<and> (mainpc s = M_exit \<and> roots_of cl = [r] \<and> ReadDir env r = Inl err' \<longrightarrow>
          stderr s = [''du: '' @ err' @ ''\<newline>''] \<and> nfiles s = 0 \<and> nbytes s = 0)"
proof -
  from assms(2) have b: "inv_basic evs s" using reach_basic by blast
  have 1: "exec env s [AWalker i, AWalker i, AWalker i, AWalker i] =
             Some ([EvRead d, EvStderr (''du: '' @ err @ ''\<newline>''), EvRelease, EvDone],
                   s\<lparr>stderr := stderr s @ [''du: '' @ err @ ''\<newline>''], sema := sema s - 1,
                      wg := wg s - 1, pool := (pool s)[i := W_exit]\<rparr>)"
    if "i < length (pool s)" "pool s ! i = W_readdir d" "ReadDir env d = Inl err"
    using b that by (rule failed_read_path)
  have 2: "\<exists>a ev s'. \<not> is_tick a \<and> step env s a = Next ev s'" if "mainpc s \<noteq> M_exit"
    using b that by (rule inv_basic_progress)
  from assms have 3: "length (filter (\<lambda>a. \<not> is_tick a) acts) \<le> steps_bound ts"
    using reach_tree [of env cl t0 acts evs s ts] by linarith
  have 4: "mset (stderr s) = mset (map errline (concat (map failures ts)))
          \<and> nfiles s = of_nat (length (concat (map files ts)))
          \<and> nbytes s = sum_list (concat (map files ts))" if "mainpc s = M_exit"
    using final_totals(2,4,5) [OF assms that] by blast
  have 5: "stderr s = [''du: '' @ err' @ ''\<newline>''] \<and> nfiles s = 0 \<and> nbytes s = 0"
    if f: "mainpc s = M_exit" and r: "roots_of cl = [r]" "ReadDir env r = Inl err'"
  proof -
    from assms(1) r obtain t where t: "ts = [t]" "agrees env r t"
      by (auto simp: list_all2_Cons1)
    with r(2) have "t = Unreadable err'" by (cases t) auto
    with t 4 [OF f] show ?thesis by (simp add: errline_def)
  qed
  from 1 2 3 4 5 show ?thesis by blast
qed

theorem failed_reads_are_local_witness:
  "list_all2 (agrees demo_env) (roots_of (demo_cl [''r''])) [tree_r]
   \<and> exec demo_env (init demo_env (demo_cl [''r'']) 7) run_r = Some (events_r, final_r)
   \<and> mainpc final_r = M_exit
   \<and> failures tree_r = [''open r/d: permission denied''] \<and> files tree_r = [5]
   \<and> stderr final_r = [''du: open r/d: permission denied\<newline>'']
   \<and> nfiles final_r = 1 \<and> nbytes final_r = 5
   \<and> length (filter (\<lambda>a. \<not> is_tick a) run_r) = 20 \<and> steps_bound [tree_r] = 20
   \<and> roots_of (demo_cl [''x'']) = [''x'']
   \<and> ReadDir demo_env ''x'' = Inl ''open x: no such file or directory''
   \<and> exec demo_env (init demo_env (demo_cl [''x'']) 0) run_x = Some (events_x, final_x)
   \<and> mainpc final_x = M_exit
   \<and> stderr final_x = [''du: open x: no such file or directory\<newline>'']
   \<and> nfiles final_x = 0 \<and> nbytes final_x = 0
   \<and> exec demo_env (init demo_env (demo_cl [''r'']) 7) run_d = Some (events_d, final_d)
   \<and> pool final_d ! 1 = W_readdir ''r/d''
   \<and> ReadDir demo_env ''r/d'' = Inl ''open r/d: permission denied''
   \<and> exec demo_env final_d [AWalker 1, AWalker 1, AWalker 1, AWalker 1] =
        Some ([EvRead ''r/d'', EvStderr ''du: open r/d: permission denied\<newline>'', EvRelease, EvDone],
              final_d\<lparr>stderr := [''du: open r/d: permission denied\<newline>''], sema := 0, wg := 1,
                        pool := [W_range ''r'' [], W_exit]\<rparr>)"
proof -
  have p: "1 < length (pool final_d)" "pool final_d ! 1 = W_readdir ''r/d''"
    "ReadDir demo_env ''r/d'' = Inl ''open r/d: permission denied''"
    by (simp_all add: final_d_def demo_env_def)
  from failed_reads_are_local [OF agrees_demo(1) exec_run_d,
      of 1 "''r/d''" "''open r/d: permission denied''" "''r''" "''e''"] p
  have "exec demo_env final_d [AWalker 1, AWalker 1, AWalker 1, AWalker 1] =
        Some ([EvRead ''r/d'', EvStderr (''du: '' @ ''open r/d: permission denied'' @ ''\<newline>''),
               EvRelease, EvDone],
              final_d\<lparr>stderr := stderr final_d @ [''du: '' @ ''open r/d: permission denied'' @ ''\<newline>''],
                        sema := sema final_d - 1, wg := wg final_d - 1,
                        pool := (pool final_d)[1 := W_exit]\<rparr>)"
    by blast
  then have 6: "exec demo_env final_d [AWalker 1, AWalker 1, AWalker 1, AWalker 1] =
        Some ([EvRead ''r/d'', EvStderr ''du: open r/d: permission denied\<newline>'', EvRelease, EvDone],
              final_d\<lparr>stderr := [''du: open r/d: permission denied\<newline>''], sema := 0, wg := 1,
                        pool := [W_range ''r'' [], W_exit]\<rparr>)"
    by (simp add: final_d_def)
  have fr: "mainpc final_r = M_exit" and fx: "mainpc final_x = M_exit"
    by (simp_all add: final_r_def final_x_def)
  have rx: "roots_of (demo_cl [''x'']) = [''x'']"
    "ReadDir demo_env ''x'' = Inl ''open x: no such file or directory''"
    by (simp_all add: roots_of_def demo_cl_def demo_env_def)
  have tr: "failures tree_r = [''open r/d: permission denied'']" "files tree_r = [5]"
    by (simp_all add: tree_r_def)
  note a = failed_reads_are_local [OF agrees_demo(1) exec_run_r, of 0 "''r''" "''e''" "''r''" "''e''"]
  note b = failed_reads_are_local [OF agrees_demo(4) exec_run_x,
      of 0 "''x''" "''e''" "''x''" "''open x: no such file or directory''"]
  from a fr have 1: "mset (stderr final_r) = mset (map errline (concat (map failures [tree_r])))"
    "nfiles final_r = of_nat (length (concat (map files [tree_r])))"
    "nbytes final_r = sum_list (concat (map files [tree_r]))"
    "length (filter (\<lambda>a. \<not> is_tick a) run_r) \<le> steps_bound [tree_r]"
    by blast+
  from b fx rx have "stderr final_x = [''du: '' @ ''open x: no such file or directory'' @ ''\<newline>'']
      \<and> nfiles final_x = 0 \<and> nbytes final_x = 0"
    by blast
  then have 2: "stderr final_x = [''du: open x: no such file or directory\<newline>'']"
    "nfiles final_x = 0" "nbytes final_x = 0"
    by simp_all
  from 1(1) tr have 3: "stderr final_r = [''du: open r/d: permission denied\<newline>'']"
    by (simp add: errline_def)
  from 1(2,3) tr have 4: "nfiles final_r = 1" "nbytes final_r = 5" by simp_all
  have 5: "length (filter (\<lambda>a. \<not> is_tick a) run_r) = 20" "steps_bound [tree_r] = 20"
    by (simp_all add: run_r_def is_tick_def steps_bound_def tree_r_def)
  from agrees_demo(1) exec_run_r exec_run_x exec_run_d fr fx rx tr 2 3 4 5 6 p(2,3)
  show ?thesis by blast
qed

text \<open>
  C4. Every call of \<^verbatim>\<open>dirents\<close> takes one token of \<^verbatim>\<open>sema\<close> before it reads and gives
  it back afterwards, also when the read fails. The walkers are the goroutines started
  with \<^verbatim>\<open>go walkDir\<close>, and each calls \<^verbatim>\<open>dirents\<close> once: what one walker does at the gate
  is, in this order, one acquire, one read and one release, as far as the walker has
  come, and all three when the program is done. A walker that wants a token waits exactly
  when 256 are out, and one that finds a free slot takes
  exactly one token; a walker about to read can always go on to its release, in two steps
  when the read succeeds and in three, the second being the report, when it fails, and the
  release takes exactly one token back. In every state of every run the number of tokens
  that are out is the number of walkers between their acquire and their release, and it
  is at most 256, the capacity of \<^verbatim>\<open>sema\<close>. In every prefix of the trace there are at most
  as many releases as reads, at most as many reads as acquires, and at most 256 more
  acquires than releases; when the program is done all three numbers agree and no token
  is out.
\<close>

theorem gate_tokens_bounded:
  assumes "exec env (init env cl t0) acts = Some (evs, s)"
  shows "sema s = sum_list (map holds (pool s)) \<and> sema s \<le> 256
     \<and> count_list evs EvAcquire = count_list evs EvRelease + sema s
     \<and> length (filter is_read evs) + sum_list (map reading (pool s)) = count_list evs EvAcquire
     \<and> count_list evs EvRelease + sum_list (map read_done (pool s)) = length (filter is_read evs)
     \<and> (mainpc s = M_exit \<longrightarrow>
          sema s = 0 \<and> count_list evs EvAcquire = length (filter is_read evs)
          \<and> count_list evs EvRelease = length (filter is_read evs))
     \<and> count_list (take k evs) EvRelease \<le> length (filter is_read (take k evs))
     \<and> length (filter is_read (take k evs)) \<le> count_list (take k evs) EvAcquire
     \<and> count_list (take k evs) EvAcquire \<le> count_list (take k evs) EvRelease + 256
     \<and> length (pool s) = length (filter is_go evs)
     \<and> gate_log j acts evs =
          (if j < length (pool s) then take (phase (pool s ! j)) [Acquire, Read, Release] else [])
     \<and> (mainpc s = M_exit \<and> j < length (pool s) \<longrightarrow> gate_log j acts evs = [Acquire, Read, Release])
     \<and> (i < length (pool s) \<and> pool s ! i = W_acquire d \<longrightarrow>
          (step env s (AWalker i) = Blocked \<longleftrightarrow> sema s = 256))
     \<and> (i < length (pool s) \<and> pool s ! i = W_acquire d \<and> sema s < 256 \<longrightarrow>
          step env s (AWalker i) =
            Next EvAcquire (s\<lparr>sema := sema s + 1, pool := (pool s)[i := W_readdir d]\<rparr>))
     \<and> (i < length (pool s) \<and> pool s ! i = W_readdir d \<and> ReadDir env d = Inr es \<longrightarrow>
          exec env s [AWalker i, AWalker i] =
            Some ([EvRead d, EvRelease],
                  s\<lparr>sema := sema s - 1, pool := (pool s)[i := W_range d es]\<rparr>))
     \<and> (i < length (pool s) \<and> pool s ! i = W_readdir d \<and> ReadDir env d = Inl err \<longrightarrow>
          exec env s [AWalker i, AWalker i, AWalker i] =
            Some ([EvRead d, EvStderr (''du: '' @ err @ ''\<newline>''), EvRelease],
                  s\<lparr>stderr := stderr s @ [''du: '' @ err @ ''\<newline>''], sema := sema s - 1,
                     pool := (pool s)[i := W_range d []]\<rparr>))"
proof -
  from assms have b: "inv_basic evs s" using reach_basic by blast
  then have 1: "sema s = sum_list (map holds (pool s)) \<and> sema s \<le> 256
     \<and> count_list evs EvAcquire = count_list evs EvRelease + sema s
     \<and> length (filter is_read evs) + sum_list (map reading (pool s)) = count_list evs EvAcquire
     \<and> count_list evs EvRelease + sum_list (map read_done (pool s)) = length (filter is_read evs)"
    by (rule inv_basic_gate)
  have 2: "sema s = 0 \<and> count_list evs EvAcquire = length (filter is_read evs)
          \<and> count_list evs EvRelease = length (filter is_read evs)" if "mainpc s = M_exit"
  proof -
    note f = final_facts [OF b that]
    from f(5) have "sum_list (map reading (pool s)) = 0" "sum_list (map read_done (pool s)) = 0"
      by (rule all_exited_counts)+
    with 1 f(6) show ?thesis by linarith
  qed
  have 3: "count_list (take k evs) EvRelease \<le> length (filter is_read (take k evs))
          \<and> length (filter is_read (take k evs)) \<le> count_list (take k evs) EvAcquire
          \<and> count_list (take k evs) EvAcquire \<le> count_list (take k evs) EvRelease + 256"
  proof -
    from assms obtain sk where "exec env (init env cl t0) (take k acts) = Some (take k evs, sk)"
      using exec_take by blast
    then have "inv_basic (take k evs) sk" using reach_basic by blast
    then have "sema sk \<le> 256
     \<and> count_list (take k evs) EvAcquire = count_list (take k evs) EvRelease + sema sk
     \<and> length (filter is_read (take k evs)) + sum_list (map reading (pool sk)) = count_list (take k evs) EvAcquire
     \<and> count_list (take k evs) EvRelease + sum_list (map read_done (pool sk)) = length (filter is_read (take k evs))"
      using inv_basic_gate by blast
    then show ?thesis by linarith
  qed
  have 4: "step env s (AWalker i) =
            Next EvAcquire (s\<lparr>sema := sema s + 1, pool := (pool s)[i := W_readdir d]\<rparr>)"
    if "i < length (pool s)" "pool s ! i = W_acquire d" "sema s < 256"
    using b that by (rule acquire_step)
  have 5: "exec env s [AWalker i, AWalker i] =
            Some ([EvRead d, EvRelease],
                  s\<lparr>sema := sema s - 1, pool := (pool s)[i := W_range d es]\<rparr>)"
    if "i < length (pool s)" "pool s ! i = W_readdir d" "ReadDir env d = Inr es"
    using b that by (rule good_read_path)
  have 6: "exec env s [AWalker i, AWalker i, AWalker i] =
            Some ([EvRead d, EvStderr (''du: '' @ err @ ''\<newline>''), EvRelease],
                  s\<lparr>stderr := stderr s @ [''du: '' @ err @ ''\<newline>''], sema := sema s - 1,
                     pool := (pool s)[i := W_range d []]\<rparr>)"
    if "i < length (pool s)" "pool s ! i = W_readdir d" "ReadDir env d = Inl err"
    using b that by (rule failed_read_release)
  from 2 have f2: "mainpc s = M_exit \<longrightarrow>
          sema s = 0 \<and> count_list evs EvAcquire = length (filter is_read evs)
          \<and> count_list evs EvRelease = length (filter is_read evs)" ..
  note g = reach_gate [OF assms, of j]
  from g have 7: "length (pool s) = length (filter is_go evs)" by blast
  from g have 8: "gate_log j acts evs =
          (if j < length (pool s) then take (phase (pool s ! j)) [Acquire, Read, Release] else [])"
    by (simp only: gate_expect_def)
  have 9: "gate_log j acts evs = [Acquire, Read, Release]" if "mainpc s = M_exit" "j < length (pool s)"
  proof -
    from b that have "pool s ! j = W_exit" by (rule all_exited_nth)
    with 8 that(2) show ?thesis by simp
  qed
  have 10: "step env s (AWalker i) = Blocked \<longleftrightarrow> sema s = 256"
    if "i < length (pool s)" "pool s ! i = W_acquire d"
    using b that by (rule acquire_blocked)
  show ?thesis
    using 1 f2 3 4 5 6 7 8 9 10 by blast
qed

theorem gate_tokens_bounded_witness:
  "exec demo_env (init demo_env (demo_cl [''r'']) 7) run_r = Some (events_r, final_r)
   \<and> mainpc final_r = M_exit \<and> sema final_r = 0
   \<and> count_list events_r EvAcquire = 2 \<and> length (filter is_read events_r) = 2
   \<and> count_list events_r EvRelease = 2
   \<and> count_list (take 11 events_r) EvAcquire = 2 \<and> count_list (take 11 events_r) EvRelease = 1
   \<and> exec demo_env (init demo_env (demo_cl [''r'']) 7) run_d = Some (events_d, final_d)
   \<and> pool final_d ! 1 = W_readdir ''r/d'' \<and> ReadDir demo_env ''r/d'' = Inl ''open r/d: permission denied''
   \<and> sema final_d = 1
   \<and> exec demo_env final_d [AWalker 1, AWalker 1, AWalker 1] =
        Some ([EvRead ''r/d'', EvStderr ''du: open r/d: permission denied\<newline>'', EvRelease],
              final_d\<lparr>stderr := [''du: open r/d: permission denied\<newline>''], sema := 0,
                        pool := [W_range ''r'' [], W_range ''r/d'' []]\<rparr>)
   \<and> exec demo_env (init demo_env (demo_cl [''q'']) 1) run_one = Some (events_one, final_one)
   \<and> pool final_one ! 0 = W_acquire ''q'' \<and> sema final_one = 0
   \<and> step demo_env final_one (AWalker 0) =
        Next EvAcquire (final_one\<lparr>sema := 1, pool := [W_readdir ''q'']\<rparr>)
   \<and> length (pool final_r) = 2 \<and> length (filter is_go events_r) = 2
   \<and> gate_log 0 run_r events_r = [Acquire, Read, Release]
   \<and> gate_log 1 run_r events_r = [Acquire, Read, Release]
   \<and> gate_log 2 run_r events_r = []
   \<and> gate_log 0 run_d events_d = [Acquire, Read, Release]
   \<and> gate_log 1 run_d events_d = [Acquire]
   \<and> gate_log 0 run_one events_one = []
   \<and> exec demo_env (init demo_env (demo_cl (replicate 257 ''q'')) 0) run_full = Some (events_full, final_full)
   \<and> pool final_full ! 256 = W_acquire ''q'' \<and> sema final_full = 256
   \<and> step demo_env final_full (AWalker 256) = Blocked"
proof -
  have q: "0 < length (pool final_one)" "pool final_one ! 0 = W_acquire ''q''" "sema final_one = 0"
    "sema final_one < 256"
    by (simp_all add: final_one_def)
  from gate_tokens_bounded [OF exec_run_one, of 0 0 0 "''q''" "[]" "''e''"] q
  have "step demo_env final_one (AWalker 0) =
        Next EvAcquire (final_one\<lparr>sema := sema final_one + 1,
                                  pool := (pool final_one)[0 := W_readdir ''q'']\<rparr>)"
    by blast
  then have o: "step demo_env final_one (AWalker 0) =
        Next EvAcquire (final_one\<lparr>sema := 1, pool := [W_readdir ''q'']\<rparr>)"
    by (simp add: final_one_def)
  have a: "mainpc final_r = M_exit \<and> sema final_r = 0
   \<and> count_list events_r EvAcquire = 2 \<and> length (filter is_read events_r) = 2
   \<and> count_list events_r EvRelease = 2
   \<and> count_list (take 11 events_r) EvAcquire = 2 \<and> count_list (take 11 events_r) EvRelease = 1"
    using gate_tokens_bounded [OF exec_run_r, of 11 0 0 "''r''" "[]" "''e''"]
    by (simp add: events_r_def final_r_def is_read_def)
  have p: "1 < length (pool final_d)" "pool final_d ! 1 = W_readdir ''r/d''"
    "ReadDir demo_env ''r/d'' = Inl ''open r/d: permission denied''" "sema final_d = 1"
    by (simp_all add: final_d_def demo_env_def)
  from gate_tokens_bounded [OF exec_run_d, of 0 1 1 "''r/d''" "[]" "''open r/d: permission denied''"] p
  have "exec demo_env final_d [AWalker 1, AWalker 1, AWalker 1] =
        Some ([EvRead ''r/d'', EvStderr (''du: '' @ ''open r/d: permission denied'' @ ''\<newline>''), EvRelease],
              final_d\<lparr>stderr := stderr final_d @ [''du: '' @ ''open r/d: permission denied'' @ ''\<newline>''],
                        sema := sema final_d - 1,
                        pool := (pool final_d)[1 := W_range ''r/d'' []]\<rparr>)"
    by blast
  then have "exec demo_env final_d [AWalker 1, AWalker 1, AWalker 1] =
        Some ([EvRead ''r/d'', EvStderr ''du: open r/d: permission denied\<newline>'', EvRelease],
              final_d\<lparr>stderr := [''du: open r/d: permission denied\<newline>''], sema := 0,
                        pool := [W_range ''r'' [], W_range ''r/d'' []]\<rparr>)"
    by (simp add: final_d_def)
  moreover have f: "mainpc final_r = M_exit" "length (pool final_r) = 2" "length (pool final_d) = 2"
    "length (pool final_one) = 1" "pool final_d ! 0 = W_range ''r'' []"
    "0 < length (pool final_r)" "1 < length (pool final_r)"
    by (simp_all add: final_r_def final_d_def final_one_def)
  note tr = gate_tokens_bounded [OF exec_run_r, of 0 0 0 "''r''" "[]" "''e''"]
  from tr have "length (pool final_r) = length (filter is_go events_r)" by blast
  with f(2) have lg: "length (filter is_go events_r) = 2" by simp
  from tr f(1,6) have g0: "gate_log 0 run_r events_r = [Acquire, Read, Release]" by blast
  from gate_tokens_bounded [OF exec_run_r, of 0 1 0 "''r''" "[]" "''e''"] f(1,7)
  have g1: "gate_log 1 run_r events_r = [Acquire, Read, Release]" by blast
  from gate_tokens_bounded [OF exec_run_r, of 0 2 0 "''r''" "[]" "''e''"]
  have "gate_log 2 run_r events_r =
      (if 2 < length (pool final_r) then take (phase (pool final_r ! 2)) [Acquire, Read, Release] else [])"
    by blast
  with f(2) have g2: "gate_log 2 run_r events_r = []" by simp
  from gate_tokens_bounded [OF exec_run_d, of 0 0 0 "''r''" "[]" "''e''"]
  have "gate_log 0 run_d events_d =
      (if 0 < length (pool final_d) then take (phase (pool final_d ! 0)) [Acquire, Read, Release] else [])"
    by blast
  with f(3,5) have g3: "gate_log 0 run_d events_d = [Acquire, Read, Release]" by simp
  from gate_tokens_bounded [OF exec_run_d, of 0 1 0 "''r''" "[]" "''e''"]
  have "gate_log 1 run_d events_d =
      (if 1 < length (pool final_d) then take (phase (pool final_d ! 1)) [Acquire, Read, Release] else [])"
    by blast
  with f(3) p(2) have g4: "gate_log 1 run_d events_d = [Acquire]" by simp
  from gate_tokens_bounded [OF exec_run_one, of 0 0 0 "''r''" "[]" "''e''"]
  have "gate_log 0 run_one events_one =
      (if 0 < length (pool final_one) then take (phase (pool final_one ! 0)) [Acquire, Read, Release] else [])"
    by blast
  with f(4) q(2) have g5: "gate_log 0 run_one events_one = []" by simp
  from gate_tokens_bounded [OF exec_run_full, of 0 0 256 "''q''" "[]" "''e''"] final_full_facts(1,2,3)
  have g6: "step demo_env final_full (AWalker 256) = Blocked" by blast
  ultimately show ?thesis
    using a p q(2,3) o exec_run_r exec_run_d exec_run_one f(2) lg g0 g1 g2 g3 g4 g5
      exec_run_full final_full_facts(2,3) g6 by blast
qed

text \<open>
  C5, as amended. The capacity of the gate is the constant 256 of
  \<^verbatim>\<open>make(chan struct{}, 256)\<close>; neither the number of logical processors nor the option
  \<^verbatim>\<open>-t\<close> sets it. Whatever these are, in every state of every run of a program that has
  started at most 256 tokens are out, and a walker that wants one waits exactly when 256
  are out. The value of \<^verbatim>\<open>-t\<close> (by default the number of logical processors) is handed
  to \<^verbatim>\<open>runtime.GOMAXPROCS\<close> and read by no other statement: with another value with
  which the program starts, the same schedule gives the same events and the same state
  but for the flag.

  The claim as it stands, that the outstanding reads are bounded by the configured value,
  fails: with \<^verbatim>\<open>-t 1\<close> and two roots, two walkers hold a token at the same time.
\<close>

theorem gate_capacity_fixed:
  assumes "startup env cl t0 = Inr (p, s0)" "exec env s0 acts = Some (evs, s)"
  shows "s0 = init env cl t0
     \<and> tFlag s = (case opt_t cl of None \<Rightarrow> NumCPU env | Some j \<Rightarrow> j)
     \<and> GOMAXPROCS env (tFlag s) = Inr p
     \<and> sema s \<le> 256
     \<and> (i < length (pool s) \<and> pool s ! i = W_acquire d \<longrightarrow>
          (step env s (AWalker i) = Blocked \<longleftrightarrow> sema s = 256))
     \<and> (startup env (cl\<lparr>opt_t := k\<rparr>) t0 = Inr (p', s0') \<longrightarrow>
          exec env s0' acts = Some (evs, s\<lparr>tFlag := tFlag s0'\<rparr>))"
proof -
  from assms(1) have 0: "s0 = init env cl t0"
    by (auto simp: startup_def split: sum.splits)
  with assms(2) have e: "exec env (init env cl t0) acts = Some (evs, s)" by simp
  then have b: "inv_basic evs s"
    and 1: "tFlag s = (case opt_t cl of None \<Rightarrow> NumCPU env | Some j \<Rightarrow> j)"
    using reach_basic by blast+
  from assms(1) have "GOMAXPROCS env (case opt_t cl of None \<Rightarrow> NumCPU env | Some j \<Rightarrow> j) = Inr p"
    by (auto simp: startup_def split: sum.splits)
  with 1 have 2: "GOMAXPROCS env (tFlag s) = Inr p" by simp
  from inv_basic_gate [OF b] have 3: "sema s \<le> 256" by blast
  have 4: "step env s (AWalker i) = Blocked \<longleftrightarrow> sema s = 256"
    if "i < length (pool s)" "pool s ! i = W_acquire d"
    using b that by (rule acquire_blocked)
  have 5: "exec env s0' acts = Some (evs, s\<lparr>tFlag := tFlag s0'\<rparr>)"
    if "startup env (cl\<lparr>opt_t := k\<rparr>) t0 = Inr (p', s0')"
  proof -
    from that have "s0' = init env (cl\<lparr>opt_t := k\<rparr>) t0"
      by (auto simp: startup_def split: sum.splits)
    then have "s0' = (init env cl t0)\<lparr>tFlag := tFlag s0'\<rparr>"
      by (simp add: init_threads)
    then have "exec env s0' acts = exec env ((init env cl t0)\<lparr>tFlag := tFlag s0'\<rparr>) acts"
      by (rule arg_cong)
    with e show ?thesis by (simp only: exec_threads) simp
  qed
  from 0 1 2 3 4 5 show ?thesis by blast
qed

theorem gate_capacity_fixed_witness:
  "startup demo_env (demo_cl [''q'', ''r'']) 0 = Inr (4, init demo_env (demo_cl [''q'', ''r'']) 0)
   \<and> exec demo_env (init demo_env (demo_cl [''q'', ''r'']) 0) run_two =
      Some (events_two, final_two\<lparr>tFlag := 4\<rparr>)
   \<and> sema (final_two\<lparr>tFlag := 4\<rparr>) = 2
   \<and> startup demo_env ((demo_cl [''q'', ''r''])\<lparr>opt_t := Some 4294967297\<rparr>) 0 =
        Inr (1, init demo_env ((demo_cl [''q'', ''r''])\<lparr>opt_t := Some 4294967297\<rparr>) 0)
   \<and> exec demo_env (init demo_env ((demo_cl [''q'', ''r''])\<lparr>opt_t := Some 4294967297\<rparr>) 0) run_two =
      Some (events_two, final_two\<lparr>tFlag := 4294967297\<rparr>)
   \<and> startup demo_env ((demo_cl [''q'', ''r''])\<lparr>opt_t := Some 2147483648\<rparr>) 0 =
        Inl ''fatal error: procresize: invalid arg''
   \<and> startup demo_env (demo_cl [''q'']) 1 = Inr (4, init demo_env (demo_cl [''q'']) 1)
   \<and> exec demo_env (init demo_env (demo_cl [''q'']) 1) run_one = Some (events_one, final_one)
   \<and> pool final_one ! 0 = W_acquire ''q'' \<and> sema final_one = 0
   \<and> step demo_env final_one (AWalker 0) \<noteq> Blocked
   \<and> startup demo_env (demo_cl (replicate 257 ''q'')) 0 =
        Inr (4, init demo_env (demo_cl (replicate 257 ''q'')) 0)
   \<and> exec demo_env (init demo_env (demo_cl (replicate 257 ''q'')) 0) run_full = Some (events_full, final_full)
   \<and> pool final_full ! 256 = W_acquire ''q'' \<and> sema final_full = 256
   \<and> step demo_env final_full (AWalker 256) = Blocked"
proof -
  have s1: "startup demo_env (demo_cl [''q'']) 1 = Inr (4, init demo_env (demo_cl [''q'']) 1)"
    by (simp add: startup_def GOMAXPROCS_def demo_env_def demo_cl_def)
  have s6: "startup demo_env (demo_cl (replicate 257 ''q'')) 0 =
        Inr (4, init demo_env (demo_cl (replicate 257 ''q'')) 0)"
    by (simp add: startup_def GOMAXPROCS_def demo_env_def demo_cl_def)
  from gate_capacity_fixed [OF s6 exec_run_full, of 256 "''q''" None 4
      "init demo_env ((demo_cl (replicate 257 ''q''))\<lparr>opt_t := None\<rparr>) 0"] final_full_facts(1,2,3)
  have bl: "step demo_env final_full (AWalker 256) = Blocked" by blast
  have s2: "startup demo_env ((demo_cl [''q'', ''r''])\<lparr>opt_t := Some 1\<rparr>) 0 =
      Inr (1, init demo_env ((demo_cl [''q'', ''r''])\<lparr>opt_t := Some 1\<rparr>) 0)"
    by (simp add: startup_def GOMAXPROCS_def int32_def demo_env_def demo_cl_def)
  have s3: "startup demo_env ((demo_cl [''q'', ''r''])\<lparr>opt_t := Some 1, opt_t := None\<rparr>) 0 =
      Inr (4, init demo_env ((demo_cl [''q'', ''r''])\<lparr>opt_t := Some 1, opt_t := None\<rparr>) 0)"
    by (simp add: startup_def GOMAXPROCS_def demo_env_def demo_cl_def)
  have s4: "startup demo_env ((demo_cl [''q'', ''r''])\<lparr>opt_t := Some 1, opt_t := Some 4294967297\<rparr>) 0 =
      Inr (1, init demo_env ((demo_cl [''q'', ''r''])\<lparr>opt_t := Some 1, opt_t := Some 4294967297\<rparr>) 0)"
    by (simp add: startup_def GOMAXPROCS_def int32_def demo_env_def demo_cl_def)
  have s5: "startup demo_env ((demo_cl [''q'', ''r''])\<lparr>opt_t := Some 2147483648\<rparr>) 0 =
        Inl ''fatal error: procresize: invalid arg''"
    by (simp add: startup_def GOMAXPROCS_def int32_def demo_env_def demo_cl_def)
  have c: "(demo_cl [''q'', ''r''])\<lparr>opt_t := Some 1, opt_t := None\<rparr> = demo_cl [''q'', ''r'']"
    "(demo_cl [''q'', ''r''])\<lparr>opt_t := Some 1, opt_t := Some 4294967297\<rparr>
       = (demo_cl [''q'', ''r''])\<lparr>opt_t := Some 4294967297\<rparr>"
    by (simp_all add: demo_cl_def)
  have q: "0 < length (pool final_one)" "pool final_one ! 0 = W_acquire ''q''" "sema final_one = 0"
    by (simp_all add: final_one_def)
  from gate_capacity_fixed [OF s1 exec_run_one, of 0 "''q''" None 4 "init demo_env (demo_cl [''q'']) 1"] q
  have o: "step demo_env final_one (AWalker 0) \<noteq> Blocked" by simp
  from gate_capacity_fixed [OF s2 exec_run_two, of 0 "''q''" None 4
      "init demo_env ((demo_cl [''q'', ''r''])\<lparr>opt_t := Some 1, opt_t := None\<rparr>) 0"] s3
  have "exec demo_env (init demo_env ((demo_cl [''q'', ''r''])\<lparr>opt_t := Some 1, opt_t := None\<rparr>) 0) run_two =
          Some (events_two, final_two\<lparr>tFlag :=
            tFlag (init demo_env ((demo_cl [''q'', ''r''])\<lparr>opt_t := Some 1, opt_t := None\<rparr>) 0)\<rparr>)"
    by blast
  then have 1: "exec demo_env (init demo_env (demo_cl [''q'', ''r'']) 0) run_two =
      Some (events_two, final_two\<lparr>tFlag := 4\<rparr>)"
    by (simp add: c demo_env_def demo_cl_def)
  from gate_capacity_fixed [OF s2 exec_run_two, of 0 "''q''" "Some 4294967297" 1
      "init demo_env ((demo_cl [''q'', ''r''])\<lparr>opt_t := Some 1, opt_t := Some 4294967297\<rparr>) 0"] s4
  have "exec demo_env (init demo_env ((demo_cl [''q'', ''r''])\<lparr>opt_t := Some 1, opt_t := Some 4294967297\<rparr>) 0) run_two =
          Some (events_two, final_two\<lparr>tFlag :=
            tFlag (init demo_env ((demo_cl [''q'', ''r''])\<lparr>opt_t := Some 1, opt_t := Some 4294967297\<rparr>) 0)\<rparr>)"
    by blast
  then have 2: "exec demo_env (init demo_env ((demo_cl [''q'', ''r''])\<lparr>opt_t := Some 4294967297\<rparr>) 0) run_two =
      Some (events_two, final_two\<lparr>tFlag := 4294967297\<rparr>)"
    by (simp add: c demo_cl_def)
  have 3: "sema (final_two\<lparr>tFlag := 4\<rparr>) = 2" by (simp add: final_two_def)
  from s3 have s3': "startup demo_env (demo_cl [''q'', ''r'']) 0 = Inr (4, init demo_env (demo_cl [''q'', ''r'']) 0)"
    by (simp only: c)
  from s4 have s4': "startup demo_env ((demo_cl [''q'', ''r''])\<lparr>opt_t := Some 4294967297\<rparr>) 0 =
        Inr (1, init demo_env ((demo_cl [''q'', ''r''])\<lparr>opt_t := Some 4294967297\<rparr>) 0)"
    by (simp only: c)
  from s3' 1 3 s4' 2 s5 s1 exec_run_one q(2,3) o s6 exec_run_full final_full_facts(2,3) bl
  show ?thesis by blast
qed

theorem gate_capacity_fixed_counterexample:
  "opt_t ((demo_cl [''q'', ''r''])\<lparr>opt_t := Some 1\<rparr>) = Some 1
   \<and> startup demo_env ((demo_cl [''q'', ''r''])\<lparr>opt_t := Some 1\<rparr>) 0 =
        Inr (1, init demo_env ((demo_cl [''q'', ''r''])\<lparr>opt_t := Some 1\<rparr>) 0)
   \<and> exec demo_env (init demo_env ((demo_cl [''q'', ''r''])\<lparr>opt_t := Some 1\<rparr>) 0) run_two =
      Some (events_two, final_two)
   \<and> events_two = [EvAdd, EvGo ''q'', EvAdd, EvGo ''r'', EvAcquire, EvAcquire]
   \<and> tFlag final_two = 1
   \<and> pool final_two = [W_readdir ''q'', W_readdir ''r''] \<and> sema final_two = 2"
proof -
  have "startup demo_env ((demo_cl [''q'', ''r''])\<lparr>opt_t := Some 1\<rparr>) 0 =
      Inr (1, init demo_env ((demo_cl [''q'', ''r''])\<lparr>opt_t := Some 1\<rparr>) 0)"
    by (simp add: startup_def GOMAXPROCS_def int32_def demo_env_def demo_cl_def)
  with exec_run_two show ?thesis by (simp add: final_two_def events_two_def)
qed

text \<open>
  C6, as amended. Let every root have a finite tree below it. When a run over all the
  roots and, for every root, a run over that root alone (at any times, under any
  schedules) have reached the end of \<^verbatim>\<open>main\<close>, the file count of the first is the sum of
  the file counts of the others, and so is the byte total, the sums being those of
  \<^verbatim>\<open>int64\<close>, that is modulo \<open>2^64\<close>; where the sum of the totals of the single runs is an
  \<^verbatim>\<open>int64\<close>, the total of the run over all roots is that sum. With no root on the command
  line the roots are the current directory alone.

  The claim as it stands, with the sum of the totals for all roots, fails: the root \<open>big\<close>
  alone ends with the byte total \<open>-2^63\<close>, and given twice it ends with the byte total 0.
\<close>

theorem roots_add_up:
  assumes "list_all2 (agrees env) (roots_of cl) ts"
    and "exec env (init env cl t0) acts = Some (evs, s)" "mainpc s = M_exit"
    and "list_all2 (\<lambda>r (t1, acts1, evs1, s1).
           exec env (init env (cl\<lparr>positional := [r]\<rparr>) t1) acts1 = Some (evs1, s1)
           \<and> mainpc s1 = M_exit) (roots_of cl) runs"
  shows "nfiles s = sum_list (map (\<lambda>(t1, acts1, evs1, s1). nfiles s1) runs)
     \<and> nbytes s = sum_list (map (\<lambda>(t1, acts1, evs1, s1). nbytes s1) runs)
     \<and> (- (2 ^ 63) \<le> sum_list (map (\<lambda>(t1, acts1, evs1, s1). sint (nfiles s1)) runs)
          \<and> sum_list (map (\<lambda>(t1, acts1, evs1, s1). sint (nfiles s1)) runs) < 2 ^ 63 \<longrightarrow>
        sint (nfiles s) = sum_list (map (\<lambda>(t1, acts1, evs1, s1). sint (nfiles s1)) runs))
     \<and> (- (2 ^ 63) \<le> sum_list (map (\<lambda>(t1, acts1, evs1, s1). sint (nbytes s1)) runs)
          \<and> sum_list (map (\<lambda>(t1, acts1, evs1, s1). sint (nbytes s1)) runs) < 2 ^ 63 \<longrightarrow>
        sint (nbytes s) = sum_list (map (\<lambda>(t1, acts1, evs1, s1). sint (nbytes s1)) runs))"
proof -
  from final_totals(4,5) [OF assms(1,2,3)] single_runs_sum [OF assms(1,4)]
  have 1: "nfiles s = sum_list (map (\<lambda>(t1, acts1, evs1, s1). nfiles s1) runs)"
    and 2: "nbytes s = sum_list (map (\<lambda>(t1, acts1, evs1, s1). nbytes s1) runs)"
    by simp_all
  have 3: "sint (nfiles s) = sum_list (map (\<lambda>(t1, acts1, evs1, s1). sint (nfiles s1)) runs)"
    if "- (2 ^ 63) \<le> sum_list (map (\<lambda>(t1, acts1, evs1, s1). sint (nfiles s1)) runs)"
      "sum_list (map (\<lambda>(t1, acts1, evs1, s1). sint (nfiles s1)) runs) < 2 ^ 63"
    unfolding 1 using that sint_sum_list_range [of "map (\<lambda>(t1, acts1, evs1, s1). nfiles s1) runs"]
    by (simp only: map_sint_runs)
  have 4: "sint (nbytes s) = sum_list (map (\<lambda>(t1, acts1, evs1, s1). sint (nbytes s1)) runs)"
    if "- (2 ^ 63) \<le> sum_list (map (\<lambda>(t1, acts1, evs1, s1). sint (nbytes s1)) runs)"
      "sum_list (map (\<lambda>(t1, acts1, evs1, s1). sint (nbytes s1)) runs) < 2 ^ 63"
    unfolding 2 using that sint_sum_list_range [of "map (\<lambda>(t1, acts1, evs1, s1). nbytes s1) runs"]
    by (simp only: map_sint_runs)
  from 1 2 3 4 show ?thesis by blast
qed

theorem roots_add_up_witness:
  "list_all2 (agrees demo_env) (roots_of (demo_cl [''q'', ''r''])) [tree_q, tree_r]
   \<and> exec demo_env (init demo_env (demo_cl [''q'', ''r'']) 2) run_qr = Some (events_qr, final_qr)
   \<and> mainpc final_qr = M_exit
   \<and> exec demo_env (init demo_env (demo_cl [''q'']) 1) run_q = Some (events_q, final_q)
   \<and> mainpc final_q = M_exit
   \<and> exec demo_env (init demo_env (demo_cl [''r'']) 7) run_r = Some (events_r, final_r)
   \<and> mainpc final_r = M_exit
   \<and> nfiles final_qr = nfiles final_q + nfiles final_r \<and> nfiles final_qr = 3
   \<and> nbytes final_qr = nbytes final_q + nbytes final_r \<and> nbytes final_qr = 17
   \<and> sint (nbytes final_q) = 12 \<and> sint (nbytes final_r) = 5 \<and> sint (nbytes final_qr) = 17"
proof -
  have f: "mainpc final_qr = M_exit" "mainpc final_q = M_exit" "mainpc final_r = M_exit"
    by (simp_all add: final_qr_def final_q_def final_r_def)
  have c: "(demo_cl [''q'', ''r''])\<lparr>positional := [''q'']\<rparr> = demo_cl [''q'']"
    "(demo_cl [''q'', ''r''])\<lparr>positional := [''r'']\<rparr> = demo_cl [''r'']"
    "roots_of (demo_cl [''q'', ''r'']) = [''q'', ''r'']"
    by (simp_all add: demo_cl_def roots_of_def)
  have r: "list_all2 (\<lambda>r (t1, acts1, evs1, s1).
           exec demo_env (init demo_env ((demo_cl [''q'', ''r''])\<lparr>positional := [r]\<rparr>) t1) acts1 = Some (evs1, s1)
           \<and> mainpc s1 = M_exit) (roots_of (demo_cl [''q'', ''r'']))
           [(1, run_q, events_q, final_q), (7, run_r, events_r, final_r)]"
    using exec_run_q exec_run_r f by (simp add: c)
  note t = roots_add_up [OF agrees_demo(5) exec_run_qr f(1) r]
  from t have 1: "nfiles final_qr = nfiles final_q + nfiles final_r"
    "nbytes final_qr = nbytes final_q + nbytes final_r" by simp_all
  have 2: "nfiles final_qr = 3" "nbytes final_qr = 17" by (simp_all add: final_qr_def)
  have 3: "sint (nbytes final_q) = 12" "sint (nbytes final_r) = 5"
    by (simp_all add: final_q_def final_r_def)
  define runs :: "(int64 \<times> action list \<times> event list \<times> state) list"
    where "runs = [(1, run_q, events_q, final_q), (7, run_r, events_r, final_r)]"
  from t have "- (2 ^ 63) \<le> sum_list (map (\<lambda>(t1, acts1, evs1, s1). sint (nbytes s1)) runs)
          \<and> sum_list (map (\<lambda>(t1, acts1, evs1, s1). sint (nbytes s1)) runs) < 2 ^ 63 \<longrightarrow>
        sint (nbytes final_qr) = sum_list (map (\<lambda>(t1, acts1, evs1, s1). sint (nbytes s1)) runs)"
    unfolding runs_def by blast
  with 3 have 4: "sint (nbytes final_qr) = 17" by (simp add: runs_def)
  from agrees_demo(5) exec_run_qr exec_run_q exec_run_r f 1 2 3 4 show ?thesis by blast
qed

theorem roots_add_up_counterexample:
  "list_all2 (agrees demo_env) (roots_of (demo_cl [''big'', ''big''])) [tree_big, tree_big]
   \<and> exec demo_env (init demo_env (demo_cl [''big'', ''big'']) 0) run_bb = Some (events_bb, final_bb)
   \<and> mainpc final_bb = M_exit
   \<and> (demo_cl [''big'', ''big''])\<lparr>positional := [''big'']\<rparr> = demo_cl [''big'']
   \<and> exec demo_env (init demo_env (demo_cl [''big'']) 0) run_big = Some (events_big, final_big)
   \<and> mainpc final_big = M_exit
   \<and> sint (nbytes final_big) = - 9223372036854775808
   \<and> sint (nbytes final_big) + sint (nbytes final_big) = - 18446744073709551616
   \<and> sint (nbytes final_bb) = 0"
proof -
  have "mainpc final_bb = M_exit" "mainpc final_big = M_exit"
    "(demo_cl [''big'', ''big''])\<lparr>positional := [''big'']\<rparr> = demo_cl [''big'']"
    "sint (nbytes final_big) = - 9223372036854775808"
    "sint (nbytes final_big) + sint (nbytes final_big) = - 18446744073709551616"
    "sint (nbytes final_bb) = 0"
    by (simp_all add: final_bb_def final_big_def demo_cl_def)
  with agrees_demo_bb exec_run_bb exec_run_big show ?thesis by blast
qed

text \<open>
  C7. Two runs of the program with the same command line on the same filesystem, where
  every root has a finite tree below it, started at any times and scheduled in any way,
  end with the same file count and the same byte total; they also send the same sizes and
  print the same error lines, up to their order.
\<close>

theorem totals_deterministic:
  assumes "list_all2 (agrees env) (roots_of cl) ts"
    and "exec env (init env cl t0) acts = Some (evs, s)" "mainpc s = M_exit"
    and "exec env (init env cl t0') acts' = Some (evs', s')" "mainpc s' = M_exit"
  shows "nfiles s' = nfiles s \<and> nbytes s' = nbytes s
     \<and> mset (sends evs') = mset (sends evs) \<and> mset (stderr s') = mset (stderr s)"
  using final_totals [OF assms(1,2,3)] final_totals [OF assms(1,4,5)] by simp

theorem totals_deterministic_witness:
  "list_all2 (agrees demo_env) (roots_of (demo_cl [''q''])) [tree_q]
   \<and> exec demo_env (init demo_env (demo_cl [''q'']) 1) run_q = Some (events_q, final_q)
   \<and> mainpc final_q = M_exit
   \<and> exec demo_env (init demo_env (demo_cl [''q'']) 1) run_q' = Some (events_q', final_q')
   \<and> mainpc final_q' = M_exit
   \<and> sends events_q = [5, 7] \<and> sends events_q' = [7, 5]
   \<and> nfiles final_q' = nfiles final_q \<and> nbytes final_q' = nbytes final_q"
proof -
  have f: "mainpc final_q = M_exit" "mainpc final_q' = M_exit"
    by (simp_all add: final_q_def final_q'_def)
  have s: "sends events_q = [5, 7]" "sends events_q' = [7, 5]"
    by (simp_all add: events_q_def events_q'_def sends_def)
  from totals_deterministic [OF agrees_demo(2) exec_run_q f(1) exec_run_q2 f(2)]
  have "nfiles final_q' = nfiles final_q" "nbytes final_q' = nbytes final_q" by simp_all
  with agrees_demo(2) exec_run_q exec_run_q2 f s show ?thesis by blast
qed

text \<open>
  C8, as amended. A run that reaches the end of \<^verbatim>\<open>main\<close> has called \<^verbatim>\<open>printDiskUsage\<close>
  exactly once, as its last step, and the standard output holds that report after one
  line for every timer event (none without \<^verbatim>\<open>-v\<close>). The report is three lines, not one:
  an empty line, the line \<^verbatim>\<open>Done!\<close>, and the line with the file count, the size, the
  files per second and the elapsed seconds, where an elapsed time of zero is shown as 1.
  The size is \<^verbatim>\<open>float64(nbytes)/1e9\<close> under \<^verbatim>\<open>%.1f\<close>: a sign if \<^verbatim>\<open>nbytes\<close> is negative, the
  integer part, a point and one digit, that is a number of tenths of \<open>10^9\<close> bytes; it
  differs from the magnitude of \<^verbatim>\<open>nbytes\<close> by at most \<open>0.05 * 10^9\<close> bytes and the
  2931 bytes that the two roundings of the floating point can add.
\<close>

theorem final_report_once:
  assumes "exec env (init env cl t0) acts = Some (evs, s)" "mainpc s = M_exit"
  shows "count_list evs EvFinal = 1
     \<and> length (stdout s) = count_list evs EvTick + 1
     \<and> (\<not> opt_v cl \<longrightarrow> length (stdout s) = 1)
     \<and> (\<exists>now. last acts = AMain now
          \<and> last (stdout s) =
              ''\<newline>Done!\<newline>Files: '' @ dec (sint (nfiles s)) @ '', Size: '' @ fmtGB (nbytes s)
              @ ''GB, Avg FPS: ''
              @ dec (sint (word_of_int (sint (nfiles s) sdiv sint (if now - t0 = 0 then 1 else now - t0)) :: int64))
              @ '', Elapsed: '' @ dec (sint (if now - t0 = 0 then 1 else now - t0))
              @ '' seconds\<newline>'')
     \<and> count_lines (last (stdout s)) = 3
     \<and> fmtGB (nbytes s) =
          (if sint (nbytes s) < 0 then ''-'' else []) @ digits (nat (gb_tenths (nbytes s) div 10))
          @ ''.'' @ [''0123456789'' ! nat (gb_tenths (nbytes s) mod 10)]
     \<and> 0 \<le> gb_tenths (nbytes s)
     \<and> \<bar>gb_tenths (nbytes s) * 10 ^ 8 - \<bar>sint (nbytes s)\<bar>\<bar> \<le> 5 * 10 ^ 7 + 2931"
proof -
  from assms(1) have b: "inv_basic evs s" and v: "vFlag s = opt_v cl" using reach_basic by blast+
  note o = inv_basic_out [OF b]
  from o(1) assms(2) have 1: "count_list evs EvFinal = 1" by simp
  with o(2) have 2: "length (stdout s) = count_list evs EvTick + 1" by simp
  from o(3) v 2 have 3: "\<not> opt_v cl \<longrightarrow> length (stdout s) = 1" by simp
  from final_report [OF assms(1)] assms(2) obtain now where n: "last acts = AMain now"
    and p: "printDiskUsage (nfiles s) (nbytes s) t0 now = Some (last (stdout s))" by blast
  from p have 4: "last (stdout s) =
              ''\<newline>Done!\<newline>Files: '' @ dec (sint (nfiles s)) @ '', Size: '' @ fmtGB (nbytes s)
              @ ''GB, Avg FPS: ''
              @ dec (sint (word_of_int (sint (nfiles s) sdiv sint (if now - t0 = 0 then 1 else now - t0)) :: int64))
              @ '', Elapsed: '' @ dec (sint (if now - t0 = 0 then 1 else now - t0))
              @ '' seconds\<newline>''"
    by (simp only: printDiskUsage_eq option.inject)
  then have 5: "count_lines (last (stdout s)) = 3"
    by (simp only: count_lines_final)
  note 6 = fmtGB_shape [of "nbytes s"]
  note 7 = gb_tenths_close [of "nbytes s"]
  from 1 2 3 n 4 5 6 7 show ?thesis by blast
qed

theorem final_report_once_witness:
  "exec demo_env (init demo_env (demo_cl [''r'']) 7) run_r = Some (events_r, final_r)
   \<and> mainpc final_r = M_exit \<and> count_list events_r EvFinal = 1 \<and> length (stdout final_r) = 1
   \<and> last run_r = AMain 9
   \<and> last (stdout final_r) = ''\<newline>Done!\<newline>Files: 1, Size: 0.0GB, Avg FPS: 0, Elapsed: 2 seconds\<newline>''
   \<and> count_lines (last (stdout final_r)) = 3
   \<and> exec demo_env (init demo_env (demo_cl [''big'']) 0) run_big = Some (events_big, final_big)
   \<and> mainpc final_big = M_exit \<and> sint (nbytes final_big) = - 9223372036854775808
   \<and> last (stdout final_big) =
        ''\<newline>Done!\<newline>Files: 2, Size: -9223372036.9GB, Avg FPS: 2, Elapsed: 1 seconds\<newline>''
   \<and> gb_tenths (nbytes final_big) = 92233720369
   \<and> \<bar>gb_tenths (nbytes final_big) * 10 ^ 8 - \<bar>sint (nbytes final_big)\<bar>\<bar> = 45224192"
proof -
  have f: "mainpc final_r = M_exit" "mainpc final_big = M_exit"
    by (simp_all add: final_r_def final_big_def)
  from final_report_once [OF exec_run_r f(1)]
  have 1: "count_list events_r EvFinal = 1" "count_lines (last (stdout final_r)) = 3"
    by blast+
  have 2: "length (stdout final_r) = 1" "last run_r = AMain 9"
    "last (stdout final_r) = ''\<newline>Done!\<newline>Files: 1, Size: 0.0GB, Avg FPS: 0, Elapsed: 2 seconds\<newline>''"
    by (simp_all add: final_r_def run_r_def)
  have 3: "sint (nbytes final_big) = - 9223372036854775808"
    "last (stdout final_big) =
        ''\<newline>Done!\<newline>Files: 2, Size: -9223372036.9GB, Avg FPS: 2, Elapsed: 1 seconds\<newline>''"
    by (simp_all add: final_big_def)
  have g: "gb_tenths 9223372036854775808 = 92233720369"
    by (simp add: gb_tenths_def tenths_def fdiv_1e9_def places_def float64_def round_even_def bits.simps)
  then have 4: "gb_tenths (nbytes final_big) = 92233720369" by (simp add: final_big_def)
  from final_report_once [OF exec_run_big f(2)]
  have "\<bar>gb_tenths (nbytes final_big) * 10 ^ 8 - \<bar>sint (nbytes final_big)\<bar>\<bar> \<le> 5 * 10 ^ 7 + 2931"
    by blast
  have 5: "\<bar>gb_tenths (nbytes final_big) * 10 ^ 8 - \<bar>sint (nbytes final_big)\<bar>\<bar> = 45224192"
    by (simp only: 4 3(1)) simp
  from exec_run_r exec_run_big f 1 2 3 4 5 show ?thesis by blast
qed

theorem final_report_once_counterexample:
  "exec demo_env (init demo_env (demo_cl [''r'']) 7) run_r = Some (events_r, final_r)
   \<and> mainpc final_r = M_exit
   \<and> stdout final_r = [''\<newline>Done!\<newline>Files: 1, Size: 0.0GB, Avg FPS: 0, Elapsed: 2 seconds\<newline>'']
   \<and> count_lines (concat (stdout final_r)) = 3"
  using exec_run_r by (simp add: final_r_def count_lines_def)

text \<open>
  C9. In \<^verbatim>\<open>printDiskUsage\<close> and in \<^verbatim>\<open>printProgress\<close> an elapsed time of zero seconds
  is replaced by one second before the division, so the division never has a zero divisor
  and neither function panics, whatever the file count, the byte total and the two clock
  readings are. The rate printed is the \<^verbatim>\<open>int64\<close> quotient of the file count by that
  elapsed time, rounded towards zero (the one quotient that does not fit, of the least
  \<^verbatim>\<open>int64\<close> by \<open>-1\<close>, apart).
\<close>

theorem reporters_clamp_elapsed:
  "let elapsed = (if now - st = 0 then 1 else now - st);
       fps = (word_of_int (sint nf sdiv sint elapsed) :: int64)
   in elapsed \<noteq> 0
      \<and> div64 nf elapsed = Some fps
      \<and> printDiskUsage nf nb st now =
          Some (''\<newline>Done!\<newline>Files: '' @ dec (sint nf) @ '', Size: '' @ fmtGB nb
                @ ''GB, Avg FPS: '' @ dec (sint fps) @ '', Elapsed: '' @ dec (sint elapsed)
                @ '' seconds\<newline>'')
      \<and> printProgress ngo nf nb st now =
          Some (''Files: '' @ dec (sint nf) @ '', Size: '' @ fmtGB nb
                @ ''GB, Goroutines: '' @ dec ngo @ '', Cur FPS: '' @ dec (sint fps) @ ''\<newline>'')
      \<and> (sint nf \<noteq> - (2 ^ 63) \<or> elapsed \<noteq> - 1 \<longrightarrow>
           sint fps = sgn (sint nf) * sgn (sint elapsed) * (\<bar>sint nf\<bar> div \<bar>sint elapsed\<bar>))"
proof -
  define elapsed where "elapsed = (if now - st = 0 then 1 else now - st)"
  define fps :: int64 where "fps = word_of_int (sint nf sdiv sint elapsed)"
  have nz: "elapsed \<noteq> 0" by (simp add: elapsed_def)
  then have d: "div64 nf elapsed = Some fps" by (simp add: div64_def fps_def)
  have u: "printDiskUsage nf nb st now =
          Some (''\<newline>Done!\<newline>Files: '' @ dec (sint nf) @ '', Size: '' @ fmtGB nb
                @ ''GB, Avg FPS: '' @ dec (sint fps) @ '', Elapsed: '' @ dec (sint elapsed)
                @ '' seconds\<newline>'')"
    unfolding printDiskUsage_def Let_def elapsed_def [symmetric] d by simp
  have p: "printProgress ngo nf nb st now =
          Some (''Files: '' @ dec (sint nf) @ '', Size: '' @ fmtGB nb
                @ ''GB, Goroutines: '' @ dec ngo @ '', Cur FPS: '' @ dec (sint fps) @ ''\<newline>'')"
    unfolding printProgress_def Let_def elapsed_def [symmetric] d by simp
  have r: "sint fps = sgn (sint nf) * sgn (sint elapsed) * (\<bar>sint nf\<bar> div \<bar>sint elapsed\<bar>)"
    if "sint nf \<noteq> - (2 ^ 63) \<or> elapsed \<noteq> - 1"
  proof -
    have "sint fps = sint nf sdiv sint elapsed"
      unfolding fps_def using sdiv_in_range [OF nz that] by (intro sint_word_of_int_range) auto
    then show ?thesis by (simp only: signed_divide_int_def)
  qed
  from nz d u p r show ?thesis
    unfolding Let_def elapsed_def [symmetric] fps_def [symmetric] by blast
qed

theorem reporters_clamp_elapsed_witness:
  "div64 (- 7) 1 = Some (- 7) \<and> div64 7 (- 2) = Some (- 3)
   \<and> printDiskUsage (- 7) 0 5 5
       = Some ''\<newline>Done!\<newline>Files: -7, Size: 0.0GB, Avg FPS: -7, Elapsed: 1 seconds\<newline>''
   \<and> printProgress 3 7 0 5 3
       = Some ''Files: 7, Size: 0.0GB, Goroutines: 3, Cur FPS: -3\<newline>''"
  using reporters_clamp_elapsed [of 5 5 "- 7" 0 3]
    reporters_clamp_elapsed [of 3 5 7 0 3]
  by (simp add: Let_def dec_def digits.simps fmtGB_demo)

text \<open>
  C10, as amended. Roots are not deduplicated. Let every root have a finite tree below it,
  and let the run reach the end of \<^verbatim>\<open>main\<close>. For a path that stands \<open>k\<close> times among the
  roots, the sizes sent on the channel are \<open>k\<close> copies of the sizes of its files and the
  sizes of the files of the other roots; the file count is \<open>k\<close> times its number of files
  plus the number of the others, and the byte total \<open>k\<close> times the sum of its sizes plus
  the sum of the others, both as \<^verbatim>\<open>int64\<close>, that is modulo \<open>2^64\<close>, and exactly where the
  numbers are \<^verbatim>\<open>int64\<close>. When the roots are \<open>k\<close> times the same path, nothing else is
  counted.

  The claim as it stands, with the subtree counted \<open>k\<close> times in the totals whatever its
  size, fails: the files of \<open>big\<close> have \<open>2^63\<close> bytes, twice that is \<open>2^64\<close>, and the run
  on \<open>big\<close> given twice ends with the byte total 0.
\<close>

theorem repeated_roots_counted_again:
  assumes "list_all2 (agrees env) (roots_of cl) ts" "agrees env r t"
    and "exec env (init env cl t0) acts = Some (evs, s)" "mainpc s = M_exit"
  shows "mset (sends evs) =
           repeat_mset (count_list (roots_of cl) r) (mset (files t))
           + mset (concat (map files (other_trees r (roots_of cl) ts)))
     \<and> nfiles s = of_nat (count_list (roots_of cl) r * length (files t))
                  + of_nat (length (concat (map files (other_trees r (roots_of cl) ts))))
     \<and> nbytes s = of_nat (count_list (roots_of cl) r) * sum_list (files t)
                  + sum_list (concat (map files (other_trees r (roots_of cl) ts)))
     \<and> (int (count_list (roots_of cl) r * length (files t)
               + length (concat (map files (other_trees r (roots_of cl) ts)))) < 2 ^ 63 \<longrightarrow>
          sint (nfiles s) = int (count_list (roots_of cl) r) * int (length (files t))
               + int (length (concat (map files (other_trees r (roots_of cl) ts)))))
     \<and> (- (2 ^ 63) \<le> int (count_list (roots_of cl) r) * sum_list (map sint (files t))
               + sum_list (map sint (concat (map files (other_trees r (roots_of cl) ts))))
          \<and> int (count_list (roots_of cl) r) * sum_list (map sint (files t))
               + sum_list (map sint (concat (map files (other_trees r (roots_of cl) ts)))) < 2 ^ 63 \<longrightarrow>
          sint (nbytes s) = int (count_list (roots_of cl) r) * sum_list (map sint (files t))
               + sum_list (map sint (concat (map files (other_trees r (roots_of cl) ts)))))
     \<and> (roots_of cl = replicate k r \<longrightarrow>
          mset (sends evs) = repeat_mset k (mset (files t))
          \<and> nfiles s = of_nat (k * length (files t))
          \<and> nbytes s = of_nat k * sum_list (files t))"
proof -
  note ft = final_totals [OF assms(1,3,4)]
  define c where "c = count_list (roots_of cl) r"
  define rest where "rest = concat (map files (other_trees r (roots_of cl) ts))"
  define all where "all = concat (map files ts)"
  from repeated_root_split [OF assms(1,2)]
  have sp: "mset all = repeat_mset c (mset (files t)) + mset rest"
    "length all = c * length (files t) + length rest"
    "sum_list all = of_nat c * sum_list (files t) + sum_list rest"
    "sum_list (map sint all) = int c * sum_list (map sint (files t)) + sum_list (map sint rest)"
    unfolding c_def rest_def all_def by blast+
  from ft(1) sp(1) have 1: "mset (sends evs) = repeat_mset c (mset (files t)) + mset rest"
    unfolding all_def by simp
  from ft(4) sp(2) have 2: "nfiles s = of_nat (c * length (files t)) + of_nat (length rest)"
    unfolding all_def by simp
  from ft(5) sp(3) have 3: "nbytes s = of_nat c * sum_list (files t) + sum_list rest"
    unfolding all_def by simp
  have 4: "sint (nfiles s) = int c * int (length (files t)) + int (length rest)"
    if "int (c * length (files t) + length rest) < 2 ^ 63"
  proof -
    from ft(4) sp(2) have "nfiles s = of_nat (c * length (files t) + length rest)"
      unfolding all_def by simp
    then have "sint (nfiles s) = int (c * length (files t) + length rest)"
      using that by (simp only: sint_of_nat_range)
    then show ?thesis by simp
  qed
  have 5: "sint (nbytes s) = int c * sum_list (map sint (files t)) + sum_list (map sint rest)"
    if "- (2 ^ 63) \<le> int c * sum_list (map sint (files t)) + sum_list (map sint rest)"
      "int c * sum_list (map sint (files t)) + sum_list (map sint rest) < 2 ^ 63"
  proof -
    from that have "- (2 ^ 63) \<le> sum_list (map sint all)" "sum_list (map sint all) < 2 ^ 63"
      by (simp_all only: sp(4))
    then have "sint (sum_list all) = sum_list (map sint all)" by (rule sint_sum_list_range)
    with ft(5) show ?thesis unfolding all_def [symmetric] by (simp only: sp(4))
  qed
  have 6: "mset (sends evs) = repeat_mset k (mset (files t))
          \<and> nfiles s = of_nat (k * length (files t))
          \<and> nbytes s = of_nat k * sum_list (files t)" if "roots_of cl = replicate k r"
  proof -
    from assms(1,2) that have "ts = replicate k t" by (simp add: replicate_trees)
    then have "concat (map files ts) = concat (replicate k (files t))" by simp
    with ft(1,4,5) show ?thesis by (simp only: concat_replicate_facts)
  qed
  from 1 2 3 4 5 6 show ?thesis unfolding c_def rest_def by blast
qed

theorem repeated_roots_counted_again_witness:
  "list_all2 (agrees demo_env) (roots_of (demo_cl [''q'', ''q''])) [tree_q, tree_q]
   \<and> agrees demo_env ''q'' tree_q
   \<and> exec demo_env (init demo_env (demo_cl [''q'', ''q'']) 2) run_qq = Some (events_qq, final_qq)
   \<and> mainpc final_qq = M_exit \<and> roots_of (demo_cl [''q'', ''q'']) = replicate 2 ''q''
   \<and> mset (files tree_q) = {#5, 7#} \<and> mset (sends events_qq) = {#5, 5, 7, 7#}
   \<and> nfiles final_qq = 4 \<and> nbytes final_qq = 24
   \<and> list_all2 (agrees demo_env) (roots_of (demo_cl [''q'', ''r''])) [tree_q, tree_r]
   \<and> exec demo_env (init demo_env (demo_cl [''q'', ''r'']) 2) run_qr = Some (events_qr, final_qr)
   \<and> mainpc final_qr = M_exit \<and> count_list (roots_of (demo_cl [''q'', ''r''])) ''q'' = 1
   \<and> other_trees ''q'' (roots_of (demo_cl [''q'', ''r''])) [tree_q, tree_r] = [tree_r]
   \<and> files tree_r = [5]
   \<and> sint (nfiles final_qr) = 3 \<and> sint (nbytes final_qr) = 17"
proof -
  have f: "mainpc final_qq = M_exit" "mainpc final_qr = M_exit"
    by (simp_all add: final_qq_def final_qr_def)
  have r: "roots_of (demo_cl [''q'', ''q'']) = replicate 2 ''q''"
    by (simp add: roots_of_def demo_cl_def numeral_2_eq_2)
  have ag: "agrees demo_env ''q'' tree_q" using agrees_demo(2) by (simp add: roots_of_def demo_cl_def)
  have m: "mset (files tree_q) = {#5, 7#}" "length (files tree_q) = 2" "sum_list (files tree_q) = 12"
    "sum_list (map sint (files tree_q)) = 12"
    by (simp_all add: tree_q_def)
  from repeated_roots_counted_again [OF agrees_demo(6) ag exec_run_qq f(1), of 2] r
  have "mset (sends events_qq) = repeat_mset 2 (mset (files tree_q))
     \<and> nfiles final_qq = of_nat (2 * length (files tree_q))
     \<and> nbytes final_qq = of_nat 2 * sum_list (files tree_q)" by blast
  with m have 1: "mset (sends events_qq) = {#5, 5, 7, 7#}" "nfiles final_qq = 4" "nbytes final_qq = 24"
    by (simp_all add: numeral_2_eq_2)
  have o: "count_list (roots_of (demo_cl [''q'', ''r''])) ''q'' = 1"
    "other_trees ''q'' (roots_of (demo_cl [''q'', ''r''])) [tree_q, tree_r] = [tree_r]"
    "files tree_r = [5]"
    by (simp_all add: roots_of_def demo_cl_def other_trees_def tree_r_def)
  note t = repeated_roots_counted_again [OF agrees_demo(5) ag exec_run_qr f(2), of 0]
  from t have "int (count_list (roots_of (demo_cl [''q'', ''r''])) ''q'' * length (files tree_q)
               + length (concat (map files (other_trees ''q'' (roots_of (demo_cl [''q'', ''r''])) [tree_q, tree_r])))) < 2 ^ 63 \<longrightarrow>
          sint (nfiles final_qr) = int (count_list (roots_of (demo_cl [''q'', ''r''])) ''q'') * int (length (files tree_q))
               + int (length (concat (map files (other_trees ''q'' (roots_of (demo_cl [''q'', ''r''])) [tree_q, tree_r]))))"
    by blast
  then have 2: "sint (nfiles final_qr) = 3" by (simp add: o m)
  from t have "- (2 ^ 63) \<le> int (count_list (roots_of (demo_cl [''q'', ''r''])) ''q'') * sum_list (map sint (files tree_q))
               + sum_list (map sint (concat (map files (other_trees ''q'' (roots_of (demo_cl [''q'', ''r''])) [tree_q, tree_r]))))
          \<and> int (count_list (roots_of (demo_cl [''q'', ''r''])) ''q'') * sum_list (map sint (files tree_q))
               + sum_list (map sint (concat (map files (other_trees ''q'' (roots_of (demo_cl [''q'', ''r''])) [tree_q, tree_r])))) < 2 ^ 63 \<longrightarrow>
          sint (nbytes final_qr) = int (count_list (roots_of (demo_cl [''q'', ''r''])) ''q'') * sum_list (map sint (files tree_q))
               + sum_list (map sint (concat (map files (other_trees ''q'' (roots_of (demo_cl [''q'', ''r''])) [tree_q, tree_r]))))"
    by blast
  then have 3: "sint (nbytes final_qr) = 17" by (simp add: o m)
  from agrees_demo(6) ag exec_run_qq f r m(1) 1 agrees_demo(5) exec_run_qr o 2 3 show ?thesis by blast
qed

theorem repeated_roots_counted_again_counterexample:
  "list_all2 (agrees demo_env) (roots_of (demo_cl [''big'', ''big''])) [tree_big, tree_big]
   \<and> agrees demo_env ''big'' tree_big
   \<and> count_list (roots_of (demo_cl [''big'', ''big''])) ''big'' = 2
   \<and> exec demo_env (init demo_env (demo_cl [''big'', ''big'']) 0) run_bb = Some (events_bb, final_bb)
   \<and> mainpc final_bb = M_exit
   \<and> sends events_bb = [4611686018427387904, 4611686018427387904, 4611686018427387904, 4611686018427387904]
   \<and> sum_list (map sint (files tree_big)) = 9223372036854775808
   \<and> 2 * sum_list (map sint (files tree_big)) = 18446744073709551616
   \<and> sint (nbytes final_bb) = 0"
proof -
  have "agrees demo_env ''big'' tree_big" using agrees_demo(3) by (simp add: roots_of_def demo_cl_def)
  moreover have "count_list (roots_of (demo_cl [''big'', ''big''])) ''big'' = 2"
    "mainpc final_bb = M_exit"
    "sends events_bb = [4611686018427387904, 4611686018427387904, 4611686018427387904, 4611686018427387904]"
    "sum_list (map sint (files tree_big)) = 9223372036854775808"
    "2 * sum_list (map sint (files tree_big)) = 18446744073709551616"
    "sint (nbytes final_bb) = 0"
    by (simp_all add: roots_of_def demo_cl_def final_bb_def events_bb_def sends_def tree_big_def)
  ultimately show ?thesis using agrees_demo_bb exec_run_bb by blast
qed

end
